theory Spec2Isabelle
  imports Main
begin

unbundle bit_operations_syntax

section \<open>The segment model of solution.ts\<close>

text \<open>
  The four operator symbols of the type \<open>Operator\<close>. Only \<open>'+'\<close> and \<open>'-'\<close> are
  ever passed to a constructor.
\<close>

datatype Operator = Plus | Minus | Times | Divide

text \<open>
  The two strings the program throws.
\<close>

datatype error = InvalidDigitIndex | InvalidDigits

text \<open>
  The fields of class \<open>Segment\<close>. The set of expression texts is a JavaScript \<open>Set\<close>,
  which iterates in insertion order: it is a list without repetition, new texts at the
  end. The field \<open>value\<close> is called \<open>value'\<close> here; the flags \<open>_isValid\<close>,
  \<open>_isNumber\<close>, ... carry the names of their getters, which only read them. The operand
  references \<open>operandA\<close> and \<open>operandB\<close> are read by the constructors only, so they
  are arguments of the constructor functions and not fields. Numbers are integers: the
  digits come from \<open>parseInt\<close> and the program only adds, subtracts and multiplies them.
\<close>

record Segment =
  expressions :: "string list"
  value' :: int
  usedDigits :: nat
  isValid :: bool
  isNumber :: bool
  isComplete :: bool
  isSolution :: bool
  isCommutative :: bool
  isDistributive :: bool
  operator :: "Operator option"

definition getValue :: "Segment \<Rightarrow> int" where
  "getValue s = value' s"

text \<open>\<open>setUsedDigits\<close>: the mask of the first operand, or-ed with the second one's.\<close>

definition setUsedDigits :: "Segment option \<Rightarrow> Segment option \<Rightarrow> nat" where
  "setUsedDigits operandA operandB =
     (case operandA of
        None \<Rightarrow> 0
      | Some a \<Rightarrow> (case operandB of None \<Rightarrow> usedDigits a | Some b \<Rightarrow> usedDigits a OR usedDigits b))"

text \<open>The constructor of \<open>Segment\<close>, with the field initialisers.\<close>

definition Segment_new :: "Operator option \<Rightarrow> Segment option \<Rightarrow> Segment option \<Rightarrow> Segment" where
  "Segment_new opr operandA operandB =
     \<lparr> expressions = [],
       value' = 0,
       usedDigits = setUsedDigits operandA operandB,
       isValid = False,
       isNumber = False,
       isComplete = (setUsedDigits operandA operandB = 15),
       isSolution = False,
       isCommutative = (case opr of None \<Rightarrow> False | Some p \<Rightarrow> p \<in> set [Plus, Times]),
       isDistributive = (case opr of None \<Rightarrow> False | Some p \<Rightarrow> p \<in> set [Plus, Minus]),
       operator = opr \<rparr>"

definition haveRepeatingDigits :: "Segment \<Rightarrow> Segment \<Rightarrow> bool" where
  "haveRepeatingDigits segmentA segmentB \<longleftrightarrow>
     (usedDigits segmentA OR usedDigits segmentB) \<noteq> (usedDigits segmentA XOR usedDigits segmentB)"

definition setValue :: "Segment \<Rightarrow> int \<Rightarrow> Segment" where
  "setValue s v =
     (let s1 = s\<lparr>value' := v\<rparr>
      in if isComplete s1 \<and> 0 < v \<and> v \<le> 100 then s1\<lparr>isSolution := True\<rparr> else s1)"

definition addExpression :: "Segment \<Rightarrow> string \<Rightarrow> Segment" where
  "addExpression s text =
     (if text \<in> set (expressions s) then s else s\<lparr>expressions := expressions s @ [text]\<rparr>)"

definition equals :: "Segment \<Rightarrow> Segment \<Rightarrow> bool" where
  "equals this segment \<longleftrightarrow>
     value' this = value' segment \<and>
     list_ex (\<lambda>expression. expression \<in> set (expressions segment)) (expressions this)"

text \<open>
  \<open>toString\<close> returns the first text of the set; on an empty set the iterator gives
  \<open>undefined\<close>, which is \<open>None\<close> here.
\<close>

definition toString :: "Segment \<Rightarrow> string option" where
  "toString s = (case expressions s of [] \<Rightarrow> None | e # _ \<Rightarrow> Some e)"

text \<open>
  \<open>iterateExpressions\<close>: the consumer is called on every pair of texts of the two
  operands, the texts of the first operand in the outer loop; with no second operand it
  gets the text of the first one alone. The consumer updates the segment under
  construction.
\<close>

definition iterateExpressions ::
  "Segment option \<Rightarrow> Segment option \<Rightarrow> (string \<Rightarrow> string option \<Rightarrow> Segment \<Rightarrow> Segment) \<Rightarrow> Segment \<Rightarrow> Segment" where
  "iterateExpressions operandA operandB consumer s =
     (case operandA of
        None \<Rightarrow> s
      | Some a \<Rightarrow>
          fold (\<lambda>expressionA t.
                  case operandB of
                    Some b \<Rightarrow> fold (\<lambda>expressionB. consumer expressionA (Some expressionB)) (expressions b) t
                  | None \<Rightarrow> consumer expressionA None t)
               (expressions a) s)"

subsection \<open>Decimal numerals\<close>

definition digitChar :: "nat \<Rightarrow> char" where
  "digitChar d = char_of (48 + d)"

function natToString :: "nat \<Rightarrow> string" where
  "natToString n = (if n < 10 then [digitChar n] else natToString (n div 10) @ [digitChar (n mod 10)])"
  by pat_completeness auto
termination
  by (relation "measure id") auto

declare natToString.simps [simp del]

text \<open>\<open>Number.prototype.toString\<close> on an integer.\<close>

definition numberToString :: "int \<Rightarrow> string" where
  "numberToString i = (if i < 0 then CHR ''-'' # natToString (nat (- i)) else natToString (nat i))"

text \<open>A template literal prints a missing argument as \<open>undefined\<close>.\<close>

definition templateArg :: "string option \<Rightarrow> string" where
  "templateArg t = (case t of None \<Rightarrow> ''undefined'' | Some e \<Rightarrow> e)"

subsection \<open>The subclasses\<close>

definition setDigitIndex :: "Segment \<Rightarrow> int \<Rightarrow> error + Segment" where
  "setDigitIndex s index =
     (if index < 0 \<or> 3 < index then Inl InvalidDigitIndex
      else Inr (s\<lparr>usedDigits := 2 ^ nat index\<rparr>))"

definition DigitSegment_new :: "int \<Rightarrow> int \<Rightarrow> error + Segment" where
  "DigitSegment_new digit digitIndex =
     (let s0 = Segment_new None None None;
          s1 = addExpression s0 (numberToString digit);
          s2 = setValue s1 digit
      in case setDigitIndex s2 digitIndex of
           Inl e \<Rightarrow> Inl e
         | Inr s3 \<Rightarrow> Inr (s3\<lparr>isValid := True, isNumber := True\<rparr>))"

definition Combination_validate :: "Segment \<Rightarrow> Segment \<Rightarrow> Segment \<Rightarrow> Segment" where
  "Combination_validate this numberA numberB =
     this\<lparr>isValid :=
            \<not> haveRepeatingDigits numberA numberB \<and>
            isNumber numberA \<and>
            isNumber numberB \<and>
            getValue numberA \<noteq> 0 \<and>
            \<not> isComplete this\<rparr>"

definition Combination_new :: "Segment \<Rightarrow> Segment \<Rightarrow> Segment" where
  "Combination_new numberA numberB =
     (let s0 = Segment_new None (Some numberA) (Some numberB);
          s1 = Combination_validate s0 numberA numberB
      in if \<not> isValid s1 then s1
         else
           let multiplier = 10 ^ length (numberToString (getValue numberB));
               v = getValue numberA * multiplier + getValue numberB;
               s2 = addExpression s1 (numberToString v);
               s3 = setValue s2 v
           in s3\<lparr>isNumber := True\<rparr>)"

text \<open>\<open>Addition.validate\<close> and \<open>Subtraction.validate\<close> have the same body.\<close>

definition Operation_validate :: "Segment \<Rightarrow> Segment \<Rightarrow> Segment \<Rightarrow> Segment" where
  "Operation_validate this operandA operandB =
     this\<lparr>isValid :=
            \<not> haveRepeatingDigits operandA operandB \<and>
            ((isComplete this \<and> isSolution this) \<or> \<not> isComplete this)\<rparr>"

definition Addition_new :: "Segment \<Rightarrow> Segment \<Rightarrow> Segment" where
  "Addition_new operandA operandB =
     (let s0 = Segment_new (Some Plus) (Some operandA) (Some operandB);
          s1 = setValue s0 (getValue operandA + getValue operandB);
          s2 = Operation_validate s1 operandA operandB
      in if \<not> isValid s2 then s2
         else iterateExpressions (Some operandA) (Some operandB)
                (\<lambda>expressionA expressionB t.
                   addExpression
                     (addExpression t (expressionA @ '' + '' @ templateArg expressionB))
                     (templateArg expressionB @ '' + '' @ expressionA))
                s2)"

definition Subtraction_new :: "Segment \<Rightarrow> Segment \<Rightarrow> Segment" where
  "Subtraction_new operandA operandB =
     (let s0 = Segment_new (Some Minus) (Some operandA) (Some operandB);
          s1 = setValue s0 (getValue operandA - getValue operandB);
          s2 = Operation_validate s1 operandA operandB
      in if \<not> isValid s2 then s2
         else iterateExpressions (Some operandA) (Some operandB)
                (\<lambda>expressionA expressionB t.
                   let expressionB' =
                         (if isDistributive operandB then ''('' @ templateArg expressionB @ '')''
                          else templateArg expressionB)
                   in addExpression t (expressionA @ '' - '' @ expressionB'))
                s2)"

section \<open>The calculator\<close>

text \<open>
  The registry of segments and the \<open>Map\<close> of solutions, which keeps its keys in
  insertion order: an association list with one entry per key.
\<close>

record Calculator =
  segments :: "Segment list"
  solutions :: "(int \<times> string option list) list"

definition addSegments :: "Calculator \<Rightarrow> Segment list \<Rightarrow> Calculator" where
  "addSegments c new = c\<lparr>segments := segments c @ new\<rparr>"

definition addDigit :: "Calculator \<Rightarrow> int \<Rightarrow> int \<Rightarrow> error + Calculator" where
  "addDigit c digit digitIndex =
     (case DigitSegment_new digit digitIndex of
        Inl e \<Rightarrow> Inl e
      | Inr s \<Rightarrow> Inr (c\<lparr>segments := segments c @ [s]\<rparr>))"

text \<open>\<open>digits.forEach(this.addDigit, this)\<close>: every digit with its index, from \<open>i\<close> on.\<close>

fun addDigits :: "Calculator \<Rightarrow> int list \<Rightarrow> int \<Rightarrow> error + Calculator" where
  "addDigits c [] i = Inr c"
| "addDigits c (digit # rest) i =
     (case addDigit c digit i of Inl e \<Rightarrow> Inl e | Inr c1 \<Rightarrow> addDigits c1 rest (i + 1))"

definition sameValueIn :: "Segment \<Rightarrow> Segment list \<Rightarrow> bool" where
  "sameValueIn new found = list_ex (\<lambda>old. getValue old = getValue new) found"

definition addThreeDigit :: "Segment \<Rightarrow> Segment \<Rightarrow> Segment list \<Rightarrow> Segment list" where
  "addThreeDigit newTwoDigit numberC threeDigits =
     (let newThreeDigit = Combination_new newTwoDigit numberC
      in if isValid newThreeDigit \<and> \<not> sameValueIn newThreeDigit threeDigits
         then threeDigits @ [newThreeDigit] else threeDigits)"

definition addTwoDigit ::
  "Segment list \<Rightarrow> Segment \<Rightarrow> Segment \<Rightarrow> Segment list \<times> Segment list \<Rightarrow> Segment list \<times> Segment list" where
  "addTwoDigit segs numberA numberB st =
     (let newTwoDigit = Combination_new numberA numberB;
          twoDigits = (if isValid newTwoDigit \<and> \<not> sameValueIn newTwoDigit (fst st)
                       then fst st @ [newTwoDigit] else fst st)
      in (twoDigits, fold (addThreeDigit newTwoDigit) segs (snd st)))"

definition addNumberCombinations :: "Calculator \<Rightarrow> Calculator" where
  "addNumberCombinations c =
     (let st = fold (\<lambda>numberA. fold (addTwoDigit (segments c) numberA) (segments c))
                    (segments c) ([], [])
      in addSegments c (fst st @ snd st))"

definition addSolution :: "Calculator \<Rightarrow> int \<Rightarrow> string option \<Rightarrow> Calculator" where
  "addSolution c v text =
     (if list_ex (\<lambda>entry. fst entry = v) (solutions c)
      then c\<lparr>solutions := map (\<lambda>entry. if fst entry = v then (fst entry, snd entry @ [text]) else entry)
                              (solutions c)\<rparr>
      else c\<lparr>solutions := solutions c @ [(v, [text])]\<rparr>)"

definition operationExistsIn :: "Segment \<Rightarrow> Segment list \<Rightarrow> bool" where
  "operationExistsIn operation operationList = list_ex (\<lambda>segment. equals segment operation) operationList"

text \<open>
  \<open>addOperation\<close> changes the list it is given and the solutions; both are returned.
\<close>

definition addOperation :: "Calculator \<Rightarrow> Segment \<Rightarrow> Segment list \<Rightarrow> Calculator \<times> Segment list" where
  "addOperation c operation operationList =
     (if isValid operation \<and>
         \<not> operationExistsIn operation operationList \<and>
         \<not> operationExistsIn operation (segments c)
      then (if isSolution operation then addSolution c (getValue operation) (toString operation) else c,
            operationList @ [operation])
      else (c, operationList))"

text \<open>The body of the two nested loops of \<open>generateOperations\<close>.\<close>

definition operationStep :: "Segment \<Rightarrow> Segment \<Rightarrow> Calculator \<times> Segment list \<Rightarrow> Calculator \<times> Segment list" where
  "operationStep segmentA segmentB st =
     (if \<not> haveRepeatingDigits segmentA segmentB
      then (let st1 = addOperation (fst st) (Addition_new segmentA segmentB) (snd st)
            in addOperation (fst st1) (Subtraction_new segmentA segmentB) (snd st1))
      else st)"

text \<open>One round: the loops over the registry, starting from an empty batch.\<close>

definition operationRound :: "Calculator \<Rightarrow> Calculator \<times> Segment list" where
  "operationRound c =
     fold (\<lambda>segmentA st. fold (operationStep segmentA) (segments (fst st)) st) (segments c) (c, [])"

text \<open>
  The \<open>do ... while\<close> loop. Nothing bounds the number of rounds, so the result is an
  option and \<open>None\<close> stands for a loop that never ends.
\<close>

partial_function (option) generateOperations :: "Calculator \<Rightarrow> Calculator option" where
  "generateOperations c =
     (let st = operationRound c;
          c1 = addSegments (fst st) (snd st)
      in if length (snd st) > 0 then generateOperations c1 else Some c1)"

declare generateOperations.simps [code]

text \<open>
  The constructor of \<open>Calculator\<close>: the result is \<open>None\<close> when the loop does not end,
  \<open>Some (Inl e)\<close> when \<open>e\<close> is thrown.
\<close>

definition Calculator_new :: "int list \<Rightarrow> (error + Calculator) option" where
  "Calculator_new digits =
     (if length digits \<noteq> 4 then Some (Inl InvalidDigits)
      else case addDigits \<lparr>segments = [], solutions = []\<rparr> digits 0 of
             Inl e \<Rightarrow> Some (Inl e)
           | Inr c \<Rightarrow> map_option Inr (generateOperations (addNumberCombinations c)))"

section \<open>Evaluating an expression text\<close>

text \<open>
  The arithmetic reading of a text, against which the texts of the solutions are checked:
  decimal numerals, the binary operators \<open>+\<close> and \<open>-\<close> of equal precedence, applied from
  left to right, parentheses, and blanks between them. A text is cut into tokens and the
  tokens are evaluated in one pass with a stack that has one frame for every open
  parenthesis: the value so far and what is expected next.
\<close>

datatype token = TNum nat | TPlus | TMinus | TLeft | TRight

definition isDigitChar :: "char \<Rightarrow> bool" where
  "isDigitChar c \<longleftrightarrow> 48 \<le> (of_char c :: nat) \<and> (of_char c :: nat) \<le> 57"

definition digitValue :: "char \<Rightarrow> nat" where
  "digitValue c = of_char c - 48"

definition flushNumber :: "nat option \<Rightarrow> token list" where
  "flushNumber cur = (case cur of None \<Rightarrow> [] | Some n \<Rightarrow> [TNum n])"

definition symbolTokens :: "char \<Rightarrow> token list option" where
  "symbolTokens c =
     (if c = CHR '' '' then Some []
      else if c = CHR ''+'' then Some [TPlus]
      else if c = CHR ''-'' then Some [TMinus]
      else if c = CHR ''('' then Some [TLeft]
      else if c = CHR '')'' then Some [TRight]
      else None)"

text \<open>\<open>cur\<close> is the numeral being read, if any; any other character is an error.\<close>

fun tokenize :: "nat option \<Rightarrow> string \<Rightarrow> token list option" where
  "tokenize cur [] = Some (flushNumber cur)"
| "tokenize cur (c # cs) =
     (if isDigitChar c
      then tokenize (Some (10 * (case cur of None \<Rightarrow> 0 | Some n \<Rightarrow> n) + digitValue c)) cs
      else case symbolTokens c of
             None \<Rightarrow> None
           | Some sy \<Rightarrow> map_option (\<lambda>ts. flushNumber cur @ sy @ ts) (tokenize None cs))"

datatype sign = Adding | Subtracting

datatype expecting = Operand sign | AfterOperand

type_synonym frame = "int \<times> expecting"

fun applySign :: "sign \<Rightarrow> int \<Rightarrow> int \<Rightarrow> int" where
  "applySign Adding acc v = acc + v"
| "applySign Subtracting acc v = acc - v"

fun evalStep :: "frame list \<Rightarrow> token \<Rightarrow> frame list option" where
  "evalStep ((acc, Operand sg) # stk) (TNum n) = Some ((applySign sg acc (int n), AfterOperand) # stk)"
| "evalStep ((acc, Operand sg) # stk) TLeft = Some ((0, Operand Adding) # (acc, Operand sg) # stk)"
| "evalStep ((acc, AfterOperand) # stk) TPlus = Some ((acc, Operand Adding) # stk)"
| "evalStep ((acc, AfterOperand) # stk) TMinus = Some ((acc, Operand Subtracting) # stk)"
| "evalStep ((v, AfterOperand) # (acc, Operand sg) # stk) TRight =
     Some ((applySign sg acc v, AfterOperand) # stk)"
| "evalStep _ _ = None"

fun evalTokens :: "frame list \<Rightarrow> token list \<Rightarrow> frame list option" where
  "evalTokens st [] = Some st"
| "evalTokens st (t # ts) = (case evalStep st t of None \<Rightarrow> None | Some st1 \<Rightarrow> evalTokens st1 ts)"

definition evaluate :: "string \<Rightarrow> int option" where
  "evaluate text =
     (case tokenize None text of
        None \<Rightarrow> None
      | Some ts \<Rightarrow>
          (case evalTokens [(0, Operand Adding)] ts of
             Some [(v, AfterOperand)] \<Rightarrow> Some v
           | _ \<Rightarrow> None))"

section \<open>Auxiliary definitions for the proofs\<close>

text \<open>
  Adding a list of texts one after the other, the texts an addition and a subtraction add
  in the order of the loops, the segment of an operation before its texts are added, and
  the value of a concatenation.
\<close>

definition addExpressions :: "Segment \<Rightarrow> string list \<Rightarrow> Segment" where
  "addExpressions s ts = fold (\<lambda>t u. addExpression u t) ts s"

definition additionTexts :: "Segment \<Rightarrow> Segment \<Rightarrow> string list" where
  "additionTexts a b =
     concat (map (\<lambda>ea. concat (map (\<lambda>eb. [ea @ '' + '' @ eb, eb @ '' + '' @ ea]) (expressions b)))
                 (expressions a))"

definition subtractionTexts :: "Segment \<Rightarrow> Segment \<Rightarrow> string list" where
  "subtractionTexts a b =
     concat (map (\<lambda>ea. map (\<lambda>eb. ea @ '' - '' @ (if isDistributive b then ''('' @ eb @ '')'' else eb))
                           (expressions b))
                 (expressions a))"

definition operationBase :: "Operator \<Rightarrow> int \<Rightarrow> Segment \<Rightarrow> Segment \<Rightarrow> Segment" where
  "operationBase opr v a b =
     Operation_validate (setValue (Segment_new (Some opr) (Some a) (Some b)) v) a b"

definition combinationValue :: "Segment \<Rightarrow> Segment \<Rightarrow> int" where
  "combinationValue a b = value' a * 10 ^ length (numberToString (value' b)) + value' b"

text \<open>
  The tokens \<open>ts\<close> read as an expression of value \<open>v\<close>: wherever an operand to add may
  start, evaluating them adds \<open>v\<close> and leaves the evaluator after an operand. They read as
  an atom (a numeral or a parenthesised expression) when this holds after either sign.
  A text has the property of its tokens.
\<close>

definition goodExpr :: "token list \<Rightarrow> int \<Rightarrow> bool" where
  "goodExpr ts v \<longleftrightarrow>
     (\<forall>acc stk rest. evalTokens ((acc, Operand Adding) # stk) (ts @ rest)
                      = evalTokens ((acc + v, AfterOperand) # stk) rest)"

definition goodAtom :: "token list \<Rightarrow> int \<Rightarrow> bool" where
  "goodAtom ts v \<longleftrightarrow>
     (\<forall>acc sg stk rest. evalTokens ((acc, Operand sg) # stk) (ts @ rest)
                      = evalTokens ((applySign sg acc v, AfterOperand) # stk) rest)"

definition textExpr :: "string \<Rightarrow> int \<Rightarrow> bool" where
  "textExpr e v \<longleftrightarrow> (\<exists>ts. tokenize None e = Some ts \<and> goodExpr ts v)"

definition textAtom :: "string \<Rightarrow> int \<Rightarrow> bool" where
  "textAtom e v \<longleftrightarrow> (\<exists>ts. tokenize None e = Some ts \<and> goodAtom ts v)"

text \<open>
  The number of decimal digits of a natural number, as the claim on concatenation counts
  them.
\<close>

function digitCountOf :: "nat \<Rightarrow> nat" where
  "digitCountOf n = (if n < 10 then 1 else 1 + digitCountOf (n div 10))"
  by pat_completeness auto
termination
  by (relation "measure id") auto

declare digitCountOf.simps [simp del]

text \<open>The segment of a digit at a position, when the constructor does not throw.\<close>

definition digitAt :: "int \<Rightarrow> int \<Rightarrow> Segment" where
  "digitAt digit i = projr (DigitSegment_new digit i)"

text \<open>The test of \<open>addOperation\<close>, and the calculator after one round of the loop.\<close>

definition accepts :: "Calculator \<Rightarrow> Segment \<Rightarrow> Segment list \<Rightarrow> bool" where
  "accepts c operation operationList \<longleftrightarrow>
     isValid operation \<and> \<not> operationExistsIn operation operationList \<and>
     \<not> operationExistsIn operation (segments c)"

definition roundResult :: "Calculator \<Rightarrow> Calculator" where
  "roundResult c = addSegments (fst (operationRound c)) (snd (operationRound c))"

text \<open>
  What holds of every segment that is kept: it has a text, it is valid, its mask is a
  nonempty set of the four positions, and it is a solution only when it is complete with
  a value from 1 to 100.
\<close>

definition segmentBasic :: "Segment \<Rightarrow> bool" where
  "segmentBasic s \<longleftrightarrow>
     expressions s \<noteq> [] \<and> isValid s \<and> 0 < usedDigits s \<and> usedDigits s < 16 \<and>
     (isSolution s \<longrightarrow> isComplete s \<and> isDistributive s \<and> 1 \<le> value' s \<and> value' s \<le> 100)"

text \<open>
  What holds of the texts of every segment that is kept when no digit is negative: each
  text evaluates to the value of the segment, the texts of digits and concatenations are
  numerals, and the value of a number is not negative.
\<close>

definition segmentText :: "Segment \<Rightarrow> bool" where
  "segmentText s \<longleftrightarrow>
     (\<forall>e\<in>set (expressions s). textExpr e (value' s)) \<and>
     (\<not> isDistributive s \<longrightarrow> (\<forall>e\<in>set (expressions s). textAtom e (value' s))) \<and>
     (isNumber s \<longrightarrow> 0 \<le> value' s)"

text \<open>
  The primary texts of the solutions of value \<open>v\<close> among the segments \<open>xs\<close>, in the order of
  the segments.
\<close>

definition solutionsOf :: "Segment list \<Rightarrow> int \<Rightarrow> string option list" where
  "solutionsOf xs v = map toString (filter (\<lambda>s. isSolution s \<and> value' s = v) xs)"

text \<open>
  The solutions map agrees with the segments \<open>xs\<close>: one entry for each key, the entry of
  \<open>v\<close> lists the solutions of value \<open>v\<close> and is not empty, and every value of a solution
  has an entry.
\<close>

definition solutionsLinked :: "(int \<times> string option list) list \<Rightarrow> Segment list \<Rightarrow> bool" where
  "solutionsLinked sols xs \<longleftrightarrow>
     distinct (map fst sols) \<and>
     (\<forall>entry\<in>set sols. snd entry = solutionsOf xs (fst entry) \<and> snd entry \<noteq> []) \<and>
     (\<forall>s\<in>set xs. isSolution s \<longrightarrow> value' s \<in> fst ` set sols)"

text \<open>No operation of the list is equal, in the sense of \<open>equals\<close>, to a segment before it.\<close>

definition operationsApart :: "Segment list \<Rightarrow> bool" where
  "operationsApart xs \<longleftrightarrow>
     (\<forall>i j. i < j \<and> j < length xs \<and> isDistributive (xs ! j) \<longrightarrow> \<not> equals (xs ! i) (xs ! j))"

text \<open>The invariant of the calculator between two rounds.\<close>

definition calculatorInv :: "Calculator \<Rightarrow> bool" where
  "calculatorInv c \<longleftrightarrow>
     (\<forall>s\<in>set (segments c). segmentBasic s) \<and>
     solutionsLinked (solutions c) (segments c) \<and>
     operationsApart (segments c)"

text \<open>The invariant inside a round over the registry \<open>segs\<close>.\<close>

definition roundInv :: "Segment list \<Rightarrow> Calculator \<times> Segment list \<Rightarrow> bool" where
  "roundInv segs st \<longleftrightarrow>
     segments (fst st) = segs \<and>
     (\<forall>s\<in>set (snd st). segmentBasic s) \<and>
     solutionsLinked (solutions (fst st)) (segs @ snd st) \<and>
     operationsApart (segs @ snd st)"

text \<open>The number of digit positions of a mask.\<close>

definition usedCount :: "nat \<Rightarrow> nat" where
  "usedCount m =
     (if bit m (0::nat) then 1 else 0) + (if bit m (1::nat) then 1 else 0) +
     (if bit m (2::nat) then 1 else 0) + (if bit m (3::nat) then 1 else 0)"

text \<open>
  An operation that \<open>addOperation\<close> refuses whatever the batch is: it is not valid, or a
  segment of \<open>segs\<close> is equal to it.
\<close>

definition stale :: "Segment list \<Rightarrow> Segment \<Rightarrow> bool" where
  "stale segs operation \<longleftrightarrow> \<not> isValid operation \<or> operationExistsIn operation segs"

text \<open>Every pair of segments of \<open>old\<close> gives only operations that are refused.\<close>

definition pairsClosed :: "Segment list \<Rightarrow> Segment list \<Rightarrow> bool" where
  "pairsClosed old segs \<longleftrightarrow>
     (\<forall>a\<in>set old. \<forall>b\<in>set old. \<not> haveRepeatingDigits a b \<longrightarrow>
        stale segs (Addition_new a b) \<and> stale segs (Subtraction_new a b))"

text \<open>
  The state of the registry before round \<open>k\<close>: the pairs of the segments that were there
  one round earlier are closed, and the segments added since use at least \<open>k\<close> positions.
\<close>

definition frontier :: "nat \<Rightarrow> Calculator \<Rightarrow> bool" where
  "frontier k c \<longleftrightarrow>
     (\<forall>s\<in>set (segments c). segmentBasic s) \<and>
     (\<exists>old new. segments c = old @ new \<and> pairsClosed old (segments c) \<and>
        (\<forall>s\<in>set new. k \<le> usedCount (usedDigits s)))"

text \<open>
  The invariant of a round over the registry \<open>segs\<close> for the termination proof: the batch
  uses more than \<open>k\<close> positions, and the pairs \<open>pre\<close> that were visited give only stale
  operations.
\<close>

definition closingInv ::
  "Segment list \<Rightarrow> nat \<Rightarrow> (Segment \<times> Segment) list \<Rightarrow> Calculator \<times> Segment list \<Rightarrow> bool" where
  "closingInv segs k pre st \<longleftrightarrow>
     segments (fst st) = segs \<and>
     (\<forall>n\<in>set (snd st). Suc k \<le> usedCount (usedDigits n)) \<and>
     (\<forall>p\<in>set pre. \<not> haveRepeatingDigits (fst p) (snd p) \<longrightarrow>
        stale (segs @ snd st) (Addition_new (fst p) (snd p)) \<and>
        stale (segs @ snd st) (Subtraction_new (fst p) (snd p)))"

text \<open>
  Every operation of the batch was not equal, in the sense of \<open>equals\<close>, to a segment of
  the registry \<open>segs\<close> nor to an operation before it in the batch.
\<close>

definition batchApart :: "Segment list \<Rightarrow> Segment list \<Rightarrow> bool" where
  "batchApart segs batch \<longleftrightarrow>
     (\<forall>j<length batch. \<not> operationExistsIn (batch ! j) segs \<and>
                        \<not> operationExistsIn (batch ! j) (take j batch))"

section \<open>Properties\<close>

lemma or_xor_and_nat: "(a OR b = a XOR b) \<longleftrightarrow> a AND b = (0::nat)"
  by (auto simp: bit_eq_iff bit_or_iff bit_xor_iff bit_and_iff)

lemma haveRepeatingDigits_iff: "haveRepeatingDigits a b \<longleftrightarrow> usedDigits a AND usedDigits b \<noteq> 0"
  by (simp add: haveRepeatingDigits_def or_xor_and_nat)

subsection \<open>Adding texts\<close>

lemma addExpression_fields [simp]:
  "value' (addExpression s t) = value' s"
  "usedDigits (addExpression s t) = usedDigits s"
  "isValid (addExpression s t) = isValid s"
  "isNumber (addExpression s t) = isNumber s"
  "isComplete (addExpression s t) = isComplete s"
  "isSolution (addExpression s t) = isSolution s"
  "isCommutative (addExpression s t) = isCommutative s"
  "isDistributive (addExpression s t) = isDistributive s"
  "operator (addExpression s t) = operator s"
  by (simp_all add: addExpression_def)

lemma set_addExpression [simp]:
  "set (expressions (addExpression s t)) = insert t (set (expressions s))"
  by (auto simp: addExpression_def)

lemma addExpressions_fields [simp]:
  "value' (addExpressions s ts) = value' s"
  "usedDigits (addExpressions s ts) = usedDigits s"
  "isValid (addExpressions s ts) = isValid s"
  "isNumber (addExpressions s ts) = isNumber s"
  "isComplete (addExpressions s ts) = isComplete s"
  "isSolution (addExpressions s ts) = isSolution s"
  "isCommutative (addExpressions s ts) = isCommutative s"
  "isDistributive (addExpressions s ts) = isDistributive s"
  "operator (addExpressions s ts) = operator s"
  by (induction ts arbitrary: s; simp add: addExpressions_def)+

lemma set_addExpressions [simp]:
  "set (expressions (addExpressions s ts)) = set (expressions s) \<union> set ts"
  by (induction ts arbitrary: s) (auto simp: addExpressions_def)

lemma addExpressions_append:
  "addExpressions s (ts @ us) = addExpressions (addExpressions s ts) us"
  by (simp add: addExpressions_def)

lemma fold_addExpressions_inner:
  "fold (\<lambda>x u. addExpressions u (g x)) xs s = addExpressions s (concat (map g xs))"
  by (induction xs arbitrary: s) (simp_all add: addExpressions_def)

lemma iterate_addition:
  "iterateExpressions (Some a) (Some b)
     (\<lambda>expressionA expressionB t.
        addExpression (addExpression t (expressionA @ '' + '' @ templateArg expressionB))
          (templateArg expressionB @ '' + '' @ expressionA)) s
   = addExpressions s (additionTexts a b)"
proof -
  have inner: "\<And>ea t. fold (\<lambda>eb. (\<lambda>expressionA expressionB t.
        addExpression (addExpression t (expressionA @ '' + '' @ templateArg expressionB))
          (templateArg expressionB @ '' + '' @ expressionA)) ea (Some eb)) (expressions b) t
      = addExpressions t (concat (map (\<lambda>eb. [ea @ '' + '' @ eb, eb @ '' + '' @ ea]) (expressions b)))"
    (is "\<And>ea t. fold (?f ea) _ t = _")
  proof -
    fix ea t
    have "?f ea = (\<lambda>x u. addExpressions u ((\<lambda>eb. [ea @ '' + '' @ eb, eb @ '' + '' @ ea]) x))"
      by (simp add: addExpressions_def templateArg_def fun_eq_iff)
    then show "fold (?f ea) (expressions b) t
      = addExpressions t (concat (map (\<lambda>eb. [ea @ '' + '' @ eb, eb @ '' + '' @ ea]) (expressions b)))"
      by (simp only: fold_addExpressions_inner)
  qed
  show ?thesis
    unfolding iterateExpressions_def additionTexts_def option.case inner
    by (rule fold_addExpressions_inner)
qed

lemma iterate_subtraction:
  "iterateExpressions (Some a) (Some b)
     (\<lambda>expressionA expressionB t.
        addExpression t (expressionA @ '' - '' @
              (if isDistributive b then ''('' @ templateArg expressionB @ '')''
               else templateArg expressionB))) s
   = addExpressions s (subtractionTexts a b)"
proof -
  have inner: "\<And>ea t. fold (\<lambda>eb. (\<lambda>expressionA expressionB t.
        addExpression t (expressionA @ '' - '' @
              (if isDistributive b then ''('' @ templateArg expressionB @ '')''
               else templateArg expressionB))) ea (Some eb)) (expressions b) t
      = addExpressions t (map (\<lambda>eb. ea @ '' - '' @ (if isDistributive b then ''('' @ eb @ '')'' else eb)) (expressions b))"
    (is "\<And>ea t. fold (?f ea) _ t = _")
  proof -
    fix ea t
    have "?f ea = (\<lambda>x u. addExpressions u ((\<lambda>eb. [ea @ '' - '' @ (if isDistributive b then ''('' @ eb @ '')'' else eb)]) x))"
      by (simp add: addExpressions_def templateArg_def fun_eq_iff)
    then have "fold (?f ea) (expressions b) t
      = addExpressions t (concat (map (\<lambda>eb. [ea @ '' - '' @ (if isDistributive b then ''('' @ eb @ '')'' else eb)]) (expressions b)))"
      by (simp only: fold_addExpressions_inner)
    also have "concat (map (\<lambda>eb. [ea @ '' - '' @ (if isDistributive b then ''('' @ eb @ '')'' else eb)]) (expressions b))
       = map (\<lambda>eb. ea @ '' - '' @ (if isDistributive b then ''('' @ eb @ '')'' else eb)) (expressions b)"
      by (induction "expressions b") simp_all
    finally show "fold (?f ea) (expressions b) t
      = addExpressions t (map (\<lambda>eb. ea @ '' - '' @ (if isDistributive b then ''('' @ eb @ '')'' else eb)) (expressions b))" .
  qed
  show ?thesis
    unfolding iterateExpressions_def subtractionTexts_def option.case inner
    by (rule fold_addExpressions_inner)
qed

subsection \<open>The constructors, field by field\<close>

lemma operationBase_fields [simp]:
  "expressions (operationBase opr v a b) = []"
  "value' (operationBase opr v a b) = v"
  "usedDigits (operationBase opr v a b) = usedDigits a OR usedDigits b"
  "isNumber (operationBase opr v a b) = False"
  "isComplete (operationBase opr v a b) \<longleftrightarrow> usedDigits a OR usedDigits b = 15"
  "isSolution (operationBase opr v a b) \<longleftrightarrow> usedDigits a OR usedDigits b = 15 \<and> 0 < v \<and> v \<le> 100"
  "isValid (operationBase opr v a b) \<longleftrightarrow>
     \<not> haveRepeatingDigits a b \<and> (usedDigits a OR usedDigits b = 15 \<longrightarrow> 0 < v \<and> v \<le> 100)"
  "isDistributive (operationBase opr v a b) \<longleftrightarrow> opr = Plus \<or> opr = Minus"
  by (auto simp: operationBase_def Operation_validate_def setValue_def Segment_new_def
      setUsedDigits_def Let_def)

lemma Addition_new_eq:
  "Addition_new a b =
     (if isValid (operationBase Plus (value' a + value' b) a b)
      then addExpressions (operationBase Plus (value' a + value' b) a b) (additionTexts a b)
      else operationBase Plus (value' a + value' b) a b)"
  unfolding Addition_new_def Let_def iterate_addition operationBase_def getValue_def by simp

lemma Subtraction_new_eq:
  "Subtraction_new a b =
     (if isValid (operationBase Minus (value' a - value' b) a b)
      then addExpressions (operationBase Minus (value' a - value' b) a b) (subtractionTexts a b)
      else operationBase Minus (value' a - value' b) a b)"
  unfolding Subtraction_new_def Let_def iterate_subtraction operationBase_def getValue_def by simp

lemma Addition_new_fields [simp]:
  "value' (Addition_new a b) = value' a + value' b"
  "usedDigits (Addition_new a b) = usedDigits a OR usedDigits b"
  "isNumber (Addition_new a b) = False"
  "isDistributive (Addition_new a b) = True"
  "isComplete (Addition_new a b) \<longleftrightarrow> usedDigits a OR usedDigits b = 15"
  "isSolution (Addition_new a b) \<longleftrightarrow>
     usedDigits a OR usedDigits b = 15 \<and> 0 < value' a + value' b \<and> value' a + value' b \<le> 100"
  "isValid (Addition_new a b) \<longleftrightarrow>
     \<not> haveRepeatingDigits a b \<and>
     (usedDigits a OR usedDigits b = 15 \<longrightarrow> 0 < value' a + value' b \<and> value' a + value' b \<le> 100)"
  by (simp_all add: Addition_new_eq)

lemma Subtraction_new_fields [simp]:
  "value' (Subtraction_new a b) = value' a - value' b"
  "usedDigits (Subtraction_new a b) = usedDigits a OR usedDigits b"
  "isNumber (Subtraction_new a b) = False"
  "isDistributive (Subtraction_new a b) = True"
  "isComplete (Subtraction_new a b) \<longleftrightarrow> usedDigits a OR usedDigits b = 15"
  "isSolution (Subtraction_new a b) \<longleftrightarrow>
     usedDigits a OR usedDigits b = 15 \<and> 0 < value' a - value' b \<and> value' a - value' b \<le> 100"
  "isValid (Subtraction_new a b) \<longleftrightarrow>
     \<not> haveRepeatingDigits a b \<and>
     (usedDigits a OR usedDigits b = 15 \<longrightarrow> 0 < value' a - value' b \<and> value' a - value' b \<le> 100)"
  by (simp_all add: Subtraction_new_eq)

lemma set_expressions_Addition_new:
  "set (expressions (Addition_new a b)) =
     (if isValid (Addition_new a b) then set (additionTexts a b) else {})"
  by (auto simp: Addition_new_eq)

lemma set_expressions_Subtraction_new:
  "set (expressions (Subtraction_new a b)) =
     (if isValid (Subtraction_new a b) then set (subtractionTexts a b) else {})"
  by (auto simp: Subtraction_new_eq)

lemma set_additionTexts:
  "set (additionTexts a b) =
     (\<Union>ea\<in>set (expressions a). \<Union>eb\<in>set (expressions b). {ea @ '' + '' @ eb, eb @ '' + '' @ ea})"
  by (auto simp: additionTexts_def)

lemma set_subtractionTexts:
  "set (subtractionTexts a b) =
     (\<Union>ea\<in>set (expressions a). \<Union>eb\<in>set (expressions b).
        {ea @ '' - '' @ (if isDistributive b then ''('' @ eb @ '')'' else eb)})"
  by (auto simp: subtractionTexts_def)

lemma additionTexts_Nil: "additionTexts a b = [] \<longleftrightarrow> expressions a = [] \<or> expressions b = []"
  by (cases "expressions a"; cases "expressions b") (simp_all add: additionTexts_def)

lemma subtractionTexts_Nil: "subtractionTexts a b = [] \<longleftrightarrow> expressions a = [] \<or> expressions b = []"
  by (cases "expressions a"; cases "expressions b") (simp_all add: subtractionTexts_def)

lemma DigitSegment_new_eq:
  "DigitSegment_new digit i =
     (if i < 0 \<or> 3 < i then Inl InvalidDigitIndex
      else Inr \<lparr> expressions = [numberToString digit], value' = digit, usedDigits = 2 ^ nat i,
                 isValid = True, isNumber = True, isComplete = False, isSolution = False,
                 isCommutative = False, isDistributive = False, operator = None \<rparr>)"
  by (simp add: DigitSegment_new_def setDigitIndex_def setValue_def addExpression_def
      Segment_new_def setUsedDigits_def Let_def)

lemma Combination_new_valid:
  "isValid (Combination_new a b) \<longleftrightarrow>
     \<not> haveRepeatingDigits a b \<and> isNumber a \<and> isNumber b \<and> value' a \<noteq> 0 \<and>
     usedDigits a OR usedDigits b \<noteq> 15"
  by (simp add: Combination_new_def Combination_validate_def Segment_new_def setUsedDigits_def
      setValue_def addExpression_def getValue_def Let_def)

lemma Combination_new_eq:
  "isValid (Combination_new a b) \<Longrightarrow>
   Combination_new a b =
     \<lparr> expressions = [numberToString (combinationValue a b)], value' = combinationValue a b,
       usedDigits = usedDigits a OR usedDigits b,
       isValid = True, isNumber = True, isComplete = False, isSolution = False,
       isCommutative = False, isDistributive = False, operator = None \<rparr>"
  by (simp add: Combination_new_def Combination_validate_def Segment_new_def setUsedDigits_def
      setValue_def addExpression_def getValue_def Let_def combinationValue_def split: if_splits)

lemma Combination_new_invalid:
  "\<not> isValid (Combination_new a b) \<Longrightarrow>
   Combination_new a b =
     \<lparr> expressions = [], value' = 0,
       usedDigits = usedDigits a OR usedDigits b,
       isValid = False, isNumber = False, isComplete = (usedDigits a OR usedDigits b = 15),
       isSolution = False,
       isCommutative = False, isDistributive = False, operator = None \<rparr>"
  by (simp add: Combination_new_def Combination_validate_def Segment_new_def setUsedDigits_def
      setValue_def addExpression_def getValue_def Let_def combinationValue_def split: if_splits)

lemma goodAtom_goodExpr: "goodAtom ts v \<Longrightarrow> goodExpr ts v"
  unfolding goodAtom_def goodExpr_def
proof (intro allI)
  fix acc stk rest
  assume h: "\<forall>acc sg stk rest. evalTokens ((acc, Operand sg) # stk) (ts @ rest)
                      = evalTokens ((applySign sg acc v, AfterOperand) # stk) rest"
  show "evalTokens ((acc, Operand Adding) # stk) (ts @ rest)
                      = evalTokens ((acc + v, AfterOperand) # stk) rest"
    using h [rule_format, of acc Adding stk rest] by simp
qed

lemma goodAtom_num: "goodAtom [TNum n] (int n)"
  by (simp add: goodAtom_def)

lemma goodExpr_plus:
  assumes "goodExpr ta a" "goodExpr tb b"
  shows "goodExpr (ta @ TPlus # tb) (a + b)"
  unfolding goodExpr_def
proof (intro allI)
  fix acc stk rest
  have "evalTokens ((acc, Operand Adding) # stk) ((ta @ TPlus # tb) @ rest)
      = evalTokens ((acc, Operand Adding) # stk) (ta @ (TPlus # tb @ rest))" by simp
  also have "\<dots> = evalTokens ((acc + a, AfterOperand) # stk) (TPlus # tb @ rest)"
    using assms(1) by (simp only: goodExpr_def)
  also have "\<dots> = evalTokens ((acc + a, Operand Adding) # stk) (tb @ rest)" by simp
  also have "\<dots> = evalTokens ((acc + a + b, AfterOperand) # stk) rest"
    using assms(2) by (simp only: goodExpr_def)
  finally show "evalTokens ((acc, Operand Adding) # stk) ((ta @ TPlus # tb) @ rest)
      = evalTokens ((acc + (a + b), AfterOperand) # stk) rest" by (simp add: add.assoc)
qed

lemma goodExpr_minus:
  assumes "goodExpr ta a" "goodAtom tb b"
  shows "goodExpr (ta @ TMinus # tb) (a - b)"
  unfolding goodExpr_def
proof (intro allI)
  fix acc stk rest
  have "evalTokens ((acc, Operand Adding) # stk) ((ta @ TMinus # tb) @ rest)
      = evalTokens ((acc, Operand Adding) # stk) (ta @ (TMinus # tb @ rest))" by simp
  also have "\<dots> = evalTokens ((acc + a, AfterOperand) # stk) (TMinus # tb @ rest)"
    using assms(1) by (simp only: goodExpr_def)
  also have "\<dots> = evalTokens ((acc + a, Operand Subtracting) # stk) (tb @ rest)" by simp
  also have "\<dots> = evalTokens ((applySign Subtracting (acc + a) b, AfterOperand) # stk) rest"
    using assms(2) by (simp only: goodAtom_def)
  finally show "evalTokens ((acc, Operand Adding) # stk) ((ta @ TMinus # tb) @ rest)
      = evalTokens ((acc + (a - b), AfterOperand) # stk) rest" by (simp add: algebra_simps)
qed

lemma goodAtom_paren:
  assumes "goodExpr tb b"
  shows "goodAtom (TLeft # tb @ [TRight]) b"
  unfolding goodAtom_def
proof (intro allI)
  fix acc sg stk rest
  have "evalTokens ((acc, Operand sg) # stk) ((TLeft # tb @ [TRight]) @ rest)
      = evalTokens ((0, Operand Adding) # (acc, Operand sg) # stk) (tb @ (TRight # rest))" by simp
  also have "\<dots> = evalTokens ((0 + b, AfterOperand) # (acc, Operand sg) # stk) (TRight # rest)"
    using assms by (simp only: goodExpr_def)
  also have "\<dots> = evalTokens ((applySign sg acc b, AfterOperand) # stk) rest" by simp
  finally show "evalTokens ((acc, Operand sg) # stk) ((TLeft # tb @ [TRight]) @ rest)
      = evalTokens ((applySign sg acc b, AfterOperand) # stk) rest" .
qed

lemma goodExpr_evaluate:
  assumes "tokenize None e = Some ts" "goodExpr ts v"
  shows "evaluate e = Some v"
proof -
  have "evalTokens [(0, Operand Adding)] (ts @ []) = evalTokens [(0 + v, AfterOperand)] []"
    using assms(2) by (simp only: goodExpr_def)
  then have "evalTokens [(0, Operand Adding)] ts = Some [(v, AfterOperand)]" by simp
  then show ?thesis using assms(1) by (simp add: evaluate_def)
qed

subsection \<open>Tokens of composed texts\<close>

lemma tokenize_append:
  "tokenize cur s = Some ts \<Longrightarrow> tokenize None r = Some tr \<Longrightarrow> r = [] \<or> \<not> isDigitChar (hd r) \<Longrightarrow>
   tokenize cur (s @ r) = Some (ts @ tr)"
proof (induction s arbitrary: cur ts)
  case Nil
  then show ?case by (cases r) (auto simp: flushNumber_def split: option.splits)
next
  case (Cons c cs)
  then show ?case by (auto simp: flushNumber_def split: if_splits option.splits)
qed

lemma tokenize_natToString:
  "tokenize cur (natToString n @ rest)
   = tokenize (Some ((case cur of None \<Rightarrow> 0 | Some m \<Rightarrow> m) * 10 ^ length (natToString n) + n)) rest"
proof (induction n arbitrary: cur rest rule: natToString.induct)
  case (1 n)
  have dc: "\<And>d. d < 10 \<Longrightarrow> isDigitChar (digitChar d) \<and> digitValue (digitChar d) = d"
    by (simp add: isDigitChar_def digitChar_def digitValue_def)
  show ?case
  proof (cases "n < 10")
    case True
    then show ?thesis using dc [of n] by (subst (1 2) natToString.simps) (simp add: mult.commute split: option.splits)
  next
    case False
    have m: "n mod 10 < 10" by simp
    have s: "natToString n = natToString (n div 10) @ [digitChar (n mod 10)]"
      using False by (subst natToString.simps) simp
    show ?thesis
      unfolding s using "1.IH" [OF False, of cur "digitChar (n mod 10) # rest"] dc [OF m]
      by (simp add: algebra_simps split: option.splits)
  qed
qed

lemma textAtom_natToString: "textAtom (natToString n) (int n)"
proof -
  have "tokenize None (natToString n @ []) = tokenize (Some n) []"
    by (subst tokenize_natToString) simp
  then have "tokenize None (natToString n) = Some [TNum n]" by (simp add: flushNumber_def)
  then show ?thesis unfolding textAtom_def using goodAtom_num by blast
qed

lemma textAtom_textExpr: "textAtom e v \<Longrightarrow> textExpr e v"
  unfolding textAtom_def textExpr_def using goodAtom_goodExpr by blast

lemma textExpr_plus:
  assumes "textExpr ea a" "textExpr eb b"
  shows "textExpr (ea @ '' + '' @ eb) (a + b)"
proof -
  from assms obtain ta tb where
    ta: "tokenize None ea = Some ta" "goodExpr ta a" and tb: "tokenize None eb = Some tb" "goodExpr tb b"
    unfolding textExpr_def by blast
  have "tokenize None ('' + '' @ eb) = Some (TPlus # tb)"
    using tb(1) by (simp add: isDigitChar_def symbolTokens_def flushNumber_def)
  then have "tokenize None (ea @ '' + '' @ eb) = Some (ta @ TPlus # tb)"
    using ta(1) by (intro tokenize_append) (simp_all add: isDigitChar_def)
  then show ?thesis unfolding textExpr_def using goodExpr_plus [OF ta(2) tb(2)] by blast
qed

lemma textExpr_minus:
  assumes "textExpr ea a" "textAtom eb b"
  shows "textExpr (ea @ '' - '' @ eb) (a - b)"
proof -
  from assms obtain ta tb where
    ta: "tokenize None ea = Some ta" "goodExpr ta a" and tb: "tokenize None eb = Some tb" "goodAtom tb b"
    unfolding textExpr_def textAtom_def by blast
  have "tokenize None ('' - '' @ eb) = Some (TMinus # tb)"
    using tb(1) by (simp add: isDigitChar_def symbolTokens_def flushNumber_def)
  then have "tokenize None (ea @ '' - '' @ eb) = Some (ta @ TMinus # tb)"
    using ta(1) by (intro tokenize_append) (simp_all add: isDigitChar_def)
  then show ?thesis unfolding textExpr_def using goodExpr_minus [OF ta(2) tb(2)] by blast
qed

lemma textAtom_paren:
  assumes "textExpr eb b"
  shows "textAtom (''('' @ eb @ '')'') b"
proof -
  from assms obtain tb where tb: "tokenize None eb = Some tb" "goodExpr tb b"
    unfolding textExpr_def by blast
  have "tokenize None '')'' = Some [TRight]"
    by (simp add: isDigitChar_def symbolTokens_def flushNumber_def)
  then have "tokenize None (eb @ '')'') = Some (tb @ [TRight])"
    using tb(1) by (intro tokenize_append) (simp_all add: isDigitChar_def)
  then have "tokenize None (''('' @ eb @ '')'') = Some (TLeft # tb @ [TRight])"
    by (simp add: isDigitChar_def symbolTokens_def flushNumber_def)
  then show ?thesis unfolding textAtom_def using goodAtom_paren [OF tb(2)] by blast
qed

lemma textExpr_evaluate: "textExpr e v \<Longrightarrow> evaluate e = Some v"
  unfolding textExpr_def using goodExpr_evaluate by blast

lemma length_natToString: "length (natToString n) = digitCountOf n"
proof (induction n rule: natToString.induct)
  case (1 n)
  show ?case
  proof (cases "n < 10")
    case True
    then show ?thesis by (subst natToString.simps, subst digitCountOf.simps) simp
  next
    case False
    then show ?thesis using "1.IH" by (subst natToString.simps, subst digitCountOf.simps) simp
  qed
qed

lemma isComplete_Combination_new:
  "isComplete (Combination_new a b) \<longleftrightarrow> usedDigits a OR usedDigits b = 15"
proof (cases "isValid (Combination_new a b)")
  case True
  then have "usedDigits a OR usedDigits b \<noteq> 15" by (simp add: Combination_new_valid)
  then show ?thesis by (subst Combination_new_eq [OF True]) simp
next
  case False
  show ?thesis by (subst Combination_new_invalid [OF False]) simp
qed

lemma digitAt_eq:
  "0 \<le> i \<Longrightarrow> i \<le> 3 \<Longrightarrow>
   digitAt digit i = \<lparr> expressions = [numberToString digit], value' = digit, usedDigits = 2 ^ nat i,
                 isValid = True, isNumber = True, isComplete = False, isSolution = False,
                 isCommutative = False, isDistributive = False, operator = None \<rparr>"
  by (simp add: digitAt_def DigitSegment_new_eq)

lemma natToString_small: "n < 10 \<Longrightarrow> natToString n = [digitChar n]"
  by (subst natToString.simps) simp

subsection \<open>Claims about single segments\<close>

text \<open>
  Claim C6. For every pair of segments, \<open>haveRepeatingDigits\<close> gives the same answer in
  both orders of its arguments, and it is true exactly when the bitwise and of the two
  digit masks is not zero.
\<close>
theorem haveRepeatingDigits_symmetric_overlap:
  "haveRepeatingDigits a b = haveRepeatingDigits b a \<and>
   (haveRepeatingDigits a b \<longleftrightarrow> usedDigits a AND usedDigits b \<noteq> 0)"
  by (simp add: haveRepeatingDigits_iff and.commute)

text \<open>
  Claim C7, as stated, fails in its first example: the masks \<open>0b0011\<close> and \<open>0b1010\<close>
  share bit 1, and \<open>haveRepeatingDigits\<close> is true on two segments that carry them. The
  segments are an addition over the digit positions 0 and 1 and one over the positions 1
  and 3.
\<close>
theorem haveRepeatingDigits_0011_1010_counterexample:
  "usedDigits (Addition_new (digitAt 1 0) (digitAt 2 1)) = 3 \<and>
   usedDigits (Addition_new (digitAt 2 1) (digitAt 4 3)) = 10 \<and>
   haveRepeatingDigits (Addition_new (digitAt 1 0) (digitAt 2 1))
                       (Addition_new (digitAt 2 1) (digitAt 4 3))"
  by (simp add: digitAt_eq haveRepeatingDigits_def)

text \<open>
  Claim C7, amended. \<open>haveRepeatingDigits\<close> is true for the masks \<open>0b0011\<close> and
  \<open>0b1010\<close>, false for the masks \<open>0b1000\<close> and \<open>0b0110\<close>, and true for the masks
  \<open>0b0011\<close> and \<open>0b0010\<close>.
\<close>
theorem haveRepeatingDigits_examples:
  "(usedDigits a1 = 3 \<and> usedDigits b1 = 10 \<longrightarrow> haveRepeatingDigits a1 b1) \<and>
   (usedDigits a2 = 8 \<and> usedDigits b2 = 6 \<longrightarrow> \<not> haveRepeatingDigits a2 b2) \<and>
   (usedDigits a3 = 3 \<and> usedDigits b3 = 2 \<longrightarrow> haveRepeatingDigits a3 b3)"
  by (simp add: haveRepeatingDigits_def)

text \<open>The three examples on segments built by the constructors.\<close>
theorem haveRepeatingDigits_examples_witness:
  "usedDigits (Addition_new (digitAt 1 0) (digitAt 2 1)) = 3 \<and>
   usedDigits (Addition_new (digitAt 2 1) (digitAt 4 3)) = 10 \<and>
   haveRepeatingDigits (Addition_new (digitAt 1 0) (digitAt 2 1))
                       (Addition_new (digitAt 2 1) (digitAt 4 3)) \<and>
   usedDigits (digitAt 4 3) = 8 \<and>
   usedDigits (Addition_new (digitAt 2 1) (digitAt 3 2)) = 6 \<and>
   \<not> haveRepeatingDigits (digitAt 4 3) (Addition_new (digitAt 2 1) (digitAt 3 2)) \<and>
   usedDigits (digitAt 2 1) = 2 \<and>
   haveRepeatingDigits (Addition_new (digitAt 1 0) (digitAt 2 1)) (digitAt 2 1)"
  using haveRepeatingDigits_examples
    [of "Addition_new (digitAt 1 0) (digitAt 2 1)" "Addition_new (digitAt 2 1) (digitAt 4 3)"
        "digitAt 4 3" "Addition_new (digitAt 2 1) (digitAt 3 2)"
        "Addition_new (digitAt 1 0) (digitAt 2 1)" "digitAt 2 1"]
  by (simp add: digitAt_eq)

text \<open>
  Claim C5. A concatenation is valid exactly when the masks of its operands are disjoint,
  both operands are numbers, the value of the first is not zero and the new segment is
  not complete; it is complete exactly when the two masks together are \<open>0b1111\<close>. When it
  is valid and the value of the second operand is not negative (as the values of all
  numbers made of digits are), its value is the first value times ten to the number of
  decimal digits of the second value, plus the second value; its only text is the decimal
  numeral of that value, and it is a number. For every valid concatenation the exponent
  is the length of the numeral of the second value, which counts the sign of a negative
  one.
\<close>
theorem Combination_valid_value:
  "(isValid (Combination_new numberA numberB) \<longleftrightarrow>
      usedDigits numberA AND usedDigits numberB = 0 \<and> isNumber numberA \<and> isNumber numberB \<and>
      getValue numberA \<noteq> 0 \<and> \<not> isComplete (Combination_new numberA numberB)) \<and>
   (isComplete (Combination_new numberA numberB) \<longleftrightarrow> usedDigits numberA OR usedDigits numberB = 15) \<and>
   (isValid (Combination_new numberA numberB) \<and> 0 \<le> getValue numberB \<longrightarrow>
      getValue (Combination_new numberA numberB)
        = getValue numberA * 10 ^ digitCountOf (nat (getValue numberB)) + getValue numberB \<and>
      expressions (Combination_new numberA numberB)
        = [numberToString (getValue (Combination_new numberA numberB))] \<and>
      isNumber (Combination_new numberA numberB)) \<and>
   (isValid (Combination_new numberA numberB) \<longrightarrow>
      getValue (Combination_new numberA numberB)
        = getValue numberA * 10 ^ length (numberToString (getValue numberB)) + getValue numberB)"
proof (intro conjI impI iffI; (elim conjE)?)
  assume v: "isValid (Combination_new numberA numberB)" and nn: "0 \<le> getValue numberB"
  have "numberToString (value' numberB) = natToString (nat (value' numberB))"
    using nn by (simp add: numberToString_def getValue_def)
  then show "getValue (Combination_new numberA numberB)
        = getValue numberA * 10 ^ digitCountOf (nat (getValue numberB)) + getValue numberB"
    by (simp add: Combination_new_eq [OF v] getValue_def combinationValue_def length_natToString)
  show "expressions (Combination_new numberA numberB)
        = [numberToString (getValue (Combination_new numberA numberB))]"
    by (simp add: Combination_new_eq [OF v] getValue_def)
  show "isNumber (Combination_new numberA numberB)"
    by (simp add: Combination_new_eq [OF v])
next
  assume v: "isValid (Combination_new numberA numberB)"
  show "getValue (Combination_new numberA numberB)
        = getValue numberA * 10 ^ length (numberToString (getValue numberB)) + getValue numberB"
    by (simp add: Combination_new_eq [OF v] getValue_def combinationValue_def)
qed (simp_all add: isComplete_Combination_new Combination_new_valid haveRepeatingDigits_iff getValue_def)

text \<open>The digits 1 and 2 at the positions 0 and 1 give the number 12.\<close>
theorem Combination_valid_value_witness:
  "isValid (Combination_new (digitAt 1 0) (digitAt 2 1)) \<and> 0 \<le> getValue (digitAt 2 1) \<and>
   getValue (Combination_new (digitAt 1 0) (digitAt 2 1)) = 12 \<and>
   expressions (Combination_new (digitAt 1 0) (digitAt 2 1)) = [''12'']"
proof -
  have v: "isValid (Combination_new (digitAt 1 0) (digitAt 2 1))"
    by (simp add: Combination_new_valid digitAt_eq haveRepeatingDigits_def)
  have n: "0 \<le> getValue (digitAt 2 1)" by (simp add: digitAt_eq getValue_def)
  note w = Combination_valid_value [of "digitAt 1 0" "digitAt 2 1", THEN conjunct2, THEN conjunct2,
      THEN conjunct1, rule_format, OF conjI, OF v n]
  have d: "digitCountOf 2 = 1" by (subst digitCountOf.simps) simp
  have g: "getValue (digitAt 1 0) = 1" "getValue (digitAt 2 1) = 2"
    by (simp_all add: digitAt_eq getValue_def)
  have twelve: "getValue (Combination_new (digitAt 1 0) (digitAt 2 1)) = 12"
    using w [THEN conjunct1] by (simp add: g d)
  have "numberToString 12 = ''12''"
    by code_simp
  then have "expressions (Combination_new (digitAt 1 0) (digitAt 2 1)) = [''12'']"
    using w [THEN conjunct2, THEN conjunct1] by (simp only: twelve)
  then show ?thesis using v n twelve by blast
qed

lemma addDigits_in_range:
  "0 \<le> i \<Longrightarrow> i + int (length ds) \<le> 4 \<Longrightarrow>
   \<exists>c'. addDigits c ds i = Inr c' \<and> solutions c' = solutions c \<and>
        segments c' = segments c @ map (\<lambda>(d, k). digitAt d k) (zip ds (map (\<lambda>k. i + int k) [0..<length ds]))"
proof (induction ds arbitrary: c i)
  case Nil
  then show ?case by simp
next
  case (Cons d ds)
  have i3: "i \<le> 3" using Cons.prems by simp
  have a: "addDigit c d i = Inr (c\<lparr>segments := segments c @ [digitAt d i]\<rparr>)"
    using Cons.prems(1) i3 by (simp add: addDigit_def digitAt_def DigitSegment_new_eq)
  from Cons.IH [of "i + 1" "c\<lparr>segments := segments c @ [digitAt d i]\<rparr>"] Cons.prems
  obtain c' where c': "addDigits (c\<lparr>segments := segments c @ [digitAt d i]\<rparr>) ds (i + 1) = Inr c'"
    "solutions c' = solutions c"
    "segments c' = (segments c @ [digitAt d i]) @ map (\<lambda>(d, k). digitAt d k) (zip ds (map (\<lambda>k. i + 1 + int k) [0..<length ds]))"
    by auto
  have "map (\<lambda>k. i + int k) [0..<length (d # ds)] = i # map (\<lambda>k. i + 1 + int k) [0..<length ds]"
    by (simp add: upt_rec [of 0] map_Suc_upt [symmetric] del: upt_Suc)
  then show ?case using a c' by simp
qed

text \<open>
  Claim C10. The constructor of the calculator throws exactly when its argument does not
  have four elements, and then it throws \<open>Invalid digits argument.\<close>, which is the first
  thing it checks; it never throws \<open>Invalid digit index argument.\<close>. On four elements the
  loop over the digits gives each of them an index from 0 to 3 and ends without a throw,
  with four segments in the registry.
\<close>
theorem digit_index_throw_unreachable:
  "(Calculator_new digits = Some (Inl e) \<longleftrightarrow> length digits \<noteq> 4 \<and> e = InvalidDigits) \<and>
   (length digits = 4 \<longrightarrow> (\<exists>c. addDigits \<lparr>segments = [], solutions = []\<rparr> digits 0 = Inr c \<and> length (segments c) = 4))"
proof (cases "length digits = 4")
  case True
  then obtain c where c: "addDigits \<lparr>segments = [], solutions = []\<rparr> digits 0 = Inr c"
     "segments c = segments \<lparr>segments = [], solutions = []\<rparr> @ map (\<lambda>(d, k). digitAt d k) (zip digits (map (\<lambda>k. 0 + int k) [0..<length digits]))"
    using addDigits_in_range [of 0 digits "\<lparr>segments = [], solutions = []\<rparr>"] by auto
  have "length (segments c) = 4" using True by (simp add: c(2))
  then show ?thesis using True c(1) by (auto simp: Calculator_new_def)
next
  case False
  then show ?thesis by (auto simp: Calculator_new_def)
qed

text \<open>Four digits are seeded; three digits are refused.\<close>
theorem digit_index_throw_unreachable_witness:
  "length [1, 2, 3, 4 :: int] = 4 \<and>
   (\<exists>c. addDigits \<lparr>segments = [], solutions = []\<rparr> [1, 2, 3, 4] 0 = Inr c \<and> length (segments c) = 4) \<and>
   Calculator_new [1, 2, 3] = Some (Inl InvalidDigits)"
proof -
  have l4: "length [1, 2, 3, 4 :: int] = 4" and l3: "length [1, 2, 3 :: int] \<noteq> 4"
    by simp_all
  have "\<exists>c. addDigits \<lparr>segments = [], solutions = []\<rparr> [1, 2, 3, 4] 0 = Inr c \<and> length (segments c) = 4"
    using digit_index_throw_unreachable [of "[1, 2, 3, 4]" InvalidDigits] l4 by blast
  moreover have "Calculator_new [1, 2, 3] = Some (Inl InvalidDigits)"
    using digit_index_throw_unreachable [of "[1, 2, 3]" InvalidDigits] l3 by blast
  ultimately show ?thesis using l4 by blast
qed

subsection \<open>Loops as folds\<close>

lemma fold_invariant:
  assumes "Q s0" and "\<And>x s. Q s \<Longrightarrow> x \<in> set xs \<Longrightarrow> Q (f x s)"
  shows "Q (fold f xs s0)"
proof -
  have "set ys \<subseteq> set xs \<Longrightarrow> Q (fold f ys s0)" for ys
    by (induction ys rule: rev_induct) (simp_all add: assms)
  then show ?thesis by simp
qed

lemma fold_prefix_invariant:
  assumes "Q [] s0" and "\<And>pre x s. Q pre s \<Longrightarrow> x \<in> set xs \<Longrightarrow> Q (pre @ [x]) (f x s)"
  shows "Q xs (fold f xs s0)"
proof -
  have "set ys \<subseteq> set xs \<Longrightarrow> Q ys (fold f ys s0)" for ys
    by (induction ys rule: rev_induct) (simp_all add: assms)
  then show ?thesis by simp
qed

lemma addOperation_cases:
  "addOperation c operation l =
     (if accepts c operation l
      then (if isSolution operation then addSolution c (value' operation) (toString operation) else c,
            l @ [operation])
      else (c, l))"
  by (simp add: addOperation_def accepts_def getValue_def)

lemma segments_addSolution [simp]: "segments (addSolution c v t) = segments c"
  by (simp add: addSolution_def)

lemma segments_addOperation [simp]: "segments (fst (addOperation c operation l)) = segments c"
  by (simp add: addOperation_cases)

lemma segments_operationStep [simp]: "segments (fst (operationStep a b st)) = segments (fst st)"
  by (simp add: operationStep_def Let_def)

lemma segments_fold_operationStep [simp]:
  "segments (fst (fold (operationStep a) bs st)) = segments (fst st)"
  by (induction bs arbitrary: st) simp_all

lemma nested_fold_product:
  assumes "\<And>a bs st. segments (fst (fold (f a) bs st)) = segments (fst st)"
  shows "segments (fst st) = segs \<Longrightarrow>
    fold (\<lambda>a st. fold (f a) (segments (fst st)) st) as st
    = fold (\<lambda>p. f (fst p) (snd p)) (List.product as segs) st"
proof (induction as arbitrary: st)
  case Nil
  then show ?case by simp
next
  case (Cons a as)
  have "segments (fst (fold (f a) segs st)) = segs" using assms Cons.prems by simp
  from Cons.IH [OF this] show ?case using Cons.prems by (simp add: fold_map comp_def)
qed

lemma operationRound_pairs:
  "operationRound c =
     fold (\<lambda>p. operationStep (fst p) (snd p)) (List.product (segments c) (segments c)) (c, [])"
  unfolding operationRound_def
  by (rule nested_fold_product [where f = operationStep]) simp_all

lemma segments_operationRound [simp]: "segments (fst (operationRound c)) = segments c"
  unfolding operationRound_pairs
  by (rule fold_invariant [where Q = "\<lambda>st. segments (fst st) = segments c"]) simp_all

lemma segments_roundResult: "segments (roundResult c) = segments c @ snd (operationRound c)"
  by (simp add: roundResult_def addSegments_def)

lemma solutions_roundResult: "solutions (roundResult c) = solutions (fst (operationRound c))"
  by (simp add: roundResult_def addSegments_def)

subsection \<open>The loop of rounds\<close>

lemma generateOperations_unfold:
  "generateOperations c =
     (if snd (operationRound c) = [] then Some (roundResult c) else generateOperations (roundResult c))"
  by (subst generateOperations.simps) (simp add: Let_def roundResult_def)

lemma generateOperations_invariant:
  assumes g: "generateOperations c = Some c'" and i: "Inv c"
    and step: "\<And>c. Inv c \<Longrightarrow> Inv (roundResult c)"
  shows "Inv c'"
proof -
  have "Inv c \<longrightarrow> Inv c'"
  proof (rule generateOperations.raw_induct [where P = "\<lambda>x y. Inv x \<longrightarrow> Inv y", OF _ g])
    fix gen x y
    assume ih: "\<And>x y. gen x = Some y \<Longrightarrow> Inv x \<longrightarrow> Inv y"
      and body: "(let st = operationRound x; c1 = addSegments (fst st) (snd st)
                  in if 0 < length (snd st) then gen c1 else Some c1) = Some y"
    show "Inv x \<longrightarrow> Inv y"
    proof
      assume ix: "Inv x"
      show "Inv y"
      proof (cases "snd (operationRound x) = []")
        case True
        then have "y = roundResult x" using body by (simp add: Let_def roundResult_def)
        then show ?thesis using step [OF ix] by simp
      next
        case False
        then have "gen (roundResult x) = Some y" using body by (simp add: Let_def roundResult_def)
        from ih [OF this] step [OF ix] show ?thesis by simp
      qed
    qed
  qed
  then show ?thesis using i by simp
qed

subsection \<open>A property of all segments of a round\<close>

lemma operationRound_all:
  assumes reg: "\<forall>s\<in>set (segments c). P s"
    and add: "\<And>a b. P a \<Longrightarrow> P b \<Longrightarrow> isValid (Addition_new a b) \<Longrightarrow> P (Addition_new a b)"
    and sub: "\<And>a b. P a \<Longrightarrow> P b \<Longrightarrow> isValid (Subtraction_new a b) \<Longrightarrow> P (Subtraction_new a b)"
  shows "\<forall>s\<in>set (snd (operationRound c)). P s"
  unfolding operationRound_pairs
proof (rule fold_invariant [where Q = "\<lambda>st :: Calculator \<times> Segment list. \<forall>s\<in>set (snd st). P s"])
  show "\<forall>s\<in>set (snd (c, [])). P s" by simp
next
  fix p and st :: "Calculator \<times> Segment list"
  assume q: "\<forall>s\<in>set (snd st). P s" and p: "p \<in> set (List.product (segments c) (segments c))"
  have pa: "P (fst p)" and pb: "P (snd p)" using p reg by auto
  have one: "\<forall>s\<in>set (snd (addOperation c0 operation l)). P s"
    if "\<forall>s\<in>set l. P s" "isValid operation \<Longrightarrow> P operation" for c0 operation l
    using that by (auto simp: addOperation_cases accepts_def)
  have first: "\<forall>s\<in>set (snd (addOperation (fst st) (Addition_new (fst p) (snd p)) (snd st))). P s"
    by (rule one [OF q add [OF pa pb]])
  show "\<forall>s\<in>set (snd (operationStep (fst p) (snd p) st)). P s"
    unfolding operationStep_def Let_def
    using q one [OF first sub [OF pa pb]] by simp
qed

lemma roundResult_all:
  assumes "\<forall>s\<in>set (segments c). P s"
    and "\<And>a b. P a \<Longrightarrow> P b \<Longrightarrow> isValid (Addition_new a b) \<Longrightarrow> P (Addition_new a b)"
    and "\<And>a b. P a \<Longrightarrow> P b \<Longrightarrow> isValid (Subtraction_new a b) \<Longrightarrow> P (Subtraction_new a b)"
  shows "\<forall>s\<in>set (segments (roundResult c)). P s"
  using assms(1) operationRound_all [of c P, OF assms] by (auto simp: segments_roundResult)

subsection \<open>A property of all segments of the registry\<close>

lemma isNumber_Combination_new:
  "isNumber (Combination_new a b) \<Longrightarrow> isValid (Combination_new a b)"
proof (rule ccontr)
  assume n: "isNumber (Combination_new a b)" and v: "\<not> isValid (Combination_new a b)"
  have "\<not> isNumber (Combination_new a b)" by (subst Combination_new_invalid [OF v]) simp
  then show False using n by simp
qed

lemma addThreeDigit_all:
  assumes "\<forall>s\<in>set three. P s" and "isValid (Combination_new t c) \<Longrightarrow> P (Combination_new t c)"
  shows "\<forall>s\<in>set (addThreeDigit t c three). P s"
  using assms by (auto simp: addThreeDigit_def Let_def)

lemma addTwoDigit_all:
  assumes st: "\<forall>s\<in>set (fst st) \<union> set (snd st). P s"
    and comb: "\<And>a b. P a \<Longrightarrow> P b \<Longrightarrow> isValid (Combination_new a b) \<Longrightarrow> P (Combination_new a b)"
    and a: "P a" and b: "P b" and segs: "\<forall>s\<in>set segs. P s"
  shows "\<forall>s\<in>set (fst (addTwoDigit segs a b st)) \<union> set (snd (addTwoDigit segs a b st)). P s"
proof -
  let ?t = "Combination_new a b"
  have two: "\<forall>s\<in>set (fst (addTwoDigit segs a b st)). P s"
    using st comb [OF a b] by (auto simp: addTwoDigit_def Let_def)
  have three: "\<forall>s\<in>set (fold (addThreeDigit ?t) segs (snd st)). P s"
  proof (rule fold_invariant [where Q = "\<lambda>three. \<forall>s\<in>set three. P s"])
    show "\<forall>s\<in>set (snd st). P s" using st by simp
  next
    fix c three
    assume q: "\<forall>s\<in>set three. P s" and c: "c \<in> set segs"
    show "\<forall>s\<in>set (addThreeDigit ?t c three). P s"
    proof (rule addThreeDigit_all [OF q])
      assume v: "isValid (Combination_new ?t c)"
      then have "isNumber ?t" by (simp add: Combination_new_valid)
      then have "P ?t" using comb [OF a b] isNumber_Combination_new by blast
      then show "P (Combination_new ?t c)" using comb v segs c by blast
    qed
  qed
  have "snd (addTwoDigit segs a b st) = fold (addThreeDigit ?t) segs (snd st)"
    by (simp add: addTwoDigit_def Let_def)
  then show ?thesis using two three by (simp add: ball_Un)
qed

lemma addNumberCombinations_all:
  assumes reg: "\<forall>s\<in>set (segments c). P s"
    and comb: "\<And>a b. P a \<Longrightarrow> P b \<Longrightarrow> isValid (Combination_new a b) \<Longrightarrow> P (Combination_new a b)"
  shows "\<forall>s\<in>set (segments (addNumberCombinations c)). P s"
proof -
  let ?Q = "\<lambda>st :: Segment list \<times> Segment list. \<forall>s\<in>set (fst st) \<union> set (snd st). P s"
  have "?Q (fold (\<lambda>numberA. fold (addTwoDigit (segments c) numberA) (segments c)) (segments c) ([], []))"
  proof (rule fold_invariant [where Q = ?Q])
    show "?Q ([], [])" by simp
  next
    fix a and st :: "Segment list \<times> Segment list"
    assume q: "?Q st" and a: "a \<in> set (segments c)"
    show "?Q (fold (addTwoDigit (segments c) a) (segments c) st)"
    proof (rule fold_invariant [where Q = ?Q, OF q])
      fix b and st1 :: "Segment list \<times> Segment list"
      assume q1: "?Q st1" and b: "b \<in> set (segments c)"
      show "?Q (addTwoDigit (segments c) a b st1)"
        using addTwoDigit_all [of st1 P a b "segments c", OF q1 comb] a b reg by blast
    qed
  qed
  then show ?thesis using reg by (auto simp: addNumberCombinations_def addSegments_def Let_def)
qed

lemma solutions_addNumberCombinations [simp]:
  "solutions (addNumberCombinations c) = solutions c"
  by (simp add: addNumberCombinations_def addSegments_def Let_def)

lemma addDigits_four:
  assumes "length digits = 4"
  shows "\<exists>c. addDigits \<lparr>segments = [], solutions = []\<rparr> digits 0 = Inr c \<and> solutions c = [] \<and>
             (\<forall>s\<in>set (segments c). \<exists>d i. d \<in> set digits \<and> 0 \<le> i \<and> i \<le> 3 \<and> s = digitAt d i)"
proof -
  have "length digits = Suc (Suc (Suc (Suc 0)))" using assms by simp
  then obtain d0 d1 d2 d3 where d: "digits = [d0, d1, d2, d3]"
    by (auto simp: length_Suc_conv)
  obtain c where c: "addDigits \<lparr>segments = [], solutions = []\<rparr> digits 0 = Inr c"
    "solutions c = solutions \<lparr>segments = [], solutions = []\<rparr>"
    "segments c = segments \<lparr>segments = [], solutions = []\<rparr> @
       map (\<lambda>(d, k). digitAt d k) (zip digits (map (\<lambda>k. 0 + int k) [0..<length digits]))"
    using addDigits_in_range [of 0 digits "\<lparr>segments = [], solutions = []\<rparr>"] assms by auto
  have "[0..<4] = [0, 1, 2, 3]" by (simp add: upt_rec)
  then have "segments c = [digitAt d0 0, digitAt d1 1, digitAt d2 2, digitAt d3 3]"
    using c(3) by (simp add: d)
  then have "\<forall>s\<in>set (segments c). \<exists>e i. e \<in> set digits \<and> 0 \<le> i \<and> i \<le> 3 \<and> s = digitAt e i"
    unfolding d by (simp; intro conjI exI; simp?)
  then show ?thesis using c(1,2) by simp
qed

lemma Calculator_new_cases:
  assumes "length digits = 4"
  shows "\<exists>c0. addDigits \<lparr>segments = [], solutions = []\<rparr> digits 0 = Inr c0 \<and>
    solutions c0 = [] \<and>
    (\<forall>s\<in>set (segments c0). \<exists>d i. d \<in> set digits \<and> 0 \<le> i \<and> i \<le> 3 \<and> s = digitAt d i) \<and>
    Calculator_new digits = map_option Inr (generateOperations (addNumberCombinations c0))"
proof -
  from addDigits_four [OF assms] obtain c0 where
    c0: "addDigits \<lparr>segments = [], solutions = []\<rparr> digits 0 = Inr c0" "solutions c0 = []"
    "\<forall>s\<in>set (segments c0). \<exists>d i. d \<in> set digits \<and> 0 \<le> i \<and> i \<le> 3 \<and> s = digitAt d i" by blast
  have "Calculator_new digits = map_option Inr (generateOperations (addNumberCombinations c0))"
    using assms c0(1) by (simp add: Calculator_new_def)
  then show ?thesis using c0 by blast
qed

lemma Calculator_new_length:
  assumes "Calculator_new digits = Some (Inr c)"
  shows "length digits = 4"
proof (rule ccontr)
  assume "length digits \<noteq> 4"
  then have "Calculator_new digits = Some (Inl InvalidDigits)" by (simp add: Calculator_new_def)
  then show False using assms by simp
qed

lemma Calculator_new_all:
  assumes new: "Calculator_new digits = Some (Inr c)"
    and dig: "\<And>d i. d \<in> set digits \<Longrightarrow> 0 \<le> i \<Longrightarrow> i \<le> 3 \<Longrightarrow> P (digitAt d i)"
    and comb: "\<And>a b. P a \<Longrightarrow> P b \<Longrightarrow> isValid (Combination_new a b) \<Longrightarrow> P (Combination_new a b)"
    and add: "\<And>a b. P a \<Longrightarrow> P b \<Longrightarrow> isValid (Addition_new a b) \<Longrightarrow> P (Addition_new a b)"
    and sub: "\<And>a b. P a \<Longrightarrow> P b \<Longrightarrow> isValid (Subtraction_new a b) \<Longrightarrow> P (Subtraction_new a b)"
  shows "\<forall>s\<in>set (segments c). P s"
proof -
  have len: "length digits = 4" by (rule Calculator_new_length [OF new])
  from Calculator_new_cases [OF len] obtain c0 where
    c0: "\<forall>s\<in>set (segments c0). \<exists>d i. d \<in> set digits \<and> 0 \<le> i \<and> i \<le> 3 \<and> s = digitAt d i"
    "Calculator_new digits = map_option Inr (generateOperations (addNumberCombinations c0))" by blast
  have p0: "\<forall>s\<in>set (segments c0). P s"
  proof
    fix s
    assume "s \<in> set (segments c0)"
    then obtain d i where "d \<in> set digits" "0 \<le> i" "i \<le> 3" "s = digitAt d i"
      using c0(1) by blast
    then show "P s" using dig by simp
  qed
  have p1: "\<forall>s\<in>set (segments (addNumberCombinations c0)). P s"
    by (rule addNumberCombinations_all [OF p0 comb])
  from new [unfolded c0(2)]
  have g: "generateOperations (addNumberCombinations c0) = Some c" by auto
  show ?thesis
  proof (rule generateOperations_invariant
      [where Inv = "\<lambda>c. \<forall>s\<in>set (segments c). P s", OF g p1])
    fix c1 :: Calculator
    assume "\<forall>s\<in>set (segments c1). P s"
    then show "\<forall>s\<in>set (segments (roundResult c1)). P s"
      by (rule roundResult_all [OF _ add sub])
  qed
qed

subsection \<open>Masks\<close>

lemma mask_or_less:
  fixes a b :: nat
  assumes "a < 16" "b < 16"
  shows "a OR b < 16"
proof -
  have a: "take_bit 4 a = a" and b: "take_bit 4 b = b"
    using assms by (simp_all add: take_bit_nat_eq_self_iff)
  have "take_bit 4 (a OR b) < 2 ^ 4" by (rule take_bit_nat_less_exp)
  then show ?thesis by (simp add: a b)
qed

lemma mask_or_pos:
  fixes a b :: nat
  assumes "0 < a"
  shows "0 < a OR b"
proof -
  have "a OR b \<noteq> 0" using assms by (simp add: or_eq_0_iff)
  then show ?thesis by simp
qed

subsection \<open>The basic property is kept by the constructors\<close>

lemma segmentBasic_digitAt: "0 \<le> i \<Longrightarrow> i \<le> 3 \<Longrightarrow> segmentBasic (digitAt d i) \<and> \<not> isSolution (digitAt d i)"
proof -
  assume i: "0 \<le> i" "i \<le> 3"
  then have "nat i \<le> 3" by simp
  then have "(2::nat) ^ nat i \<le> 2 ^ 3" by (intro power_increasing) simp_all
  then show ?thesis using i by (simp add: digitAt_eq segmentBasic_def)
qed

lemma segmentBasic_Combination:
  assumes "segmentBasic a" "segmentBasic b" "isValid (Combination_new a b)"
  shows "segmentBasic (Combination_new a b) \<and> \<not> isSolution (Combination_new a b)"
  using assms(1,2) mask_or_less [of "usedDigits a" "usedDigits b"] mask_or_pos [of "usedDigits a" "usedDigits b"]
  by (subst (1 2) Combination_new_eq [OF assms(3)]) (simp add: segmentBasic_def)

lemma segmentBasic_Addition:
  assumes "segmentBasic a" "segmentBasic b" "isValid (Addition_new a b)"
  shows "segmentBasic (Addition_new a b)"
proof -
  have "set (expressions (Addition_new a b)) = set (additionTexts a b)"
    using assms(3) by (simp add: set_expressions_Addition_new)
  moreover have "additionTexts a b \<noteq> []" using assms(1,2) by (simp add: additionTexts_Nil segmentBasic_def)
  ultimately have "expressions (Addition_new a b) \<noteq> []" by (metis set_empty)
  then show ?thesis
    using assms mask_or_less [of "usedDigits a" "usedDigits b"] mask_or_pos [of "usedDigits a" "usedDigits b"]
    by (simp add: segmentBasic_def)
qed

lemma segmentBasic_Subtraction:
  assumes "segmentBasic a" "segmentBasic b" "isValid (Subtraction_new a b)"
  shows "segmentBasic (Subtraction_new a b)"
proof -
  have "set (expressions (Subtraction_new a b)) = set (subtractionTexts a b)"
    using assms(3) by (simp add: set_expressions_Subtraction_new)
  moreover have "subtractionTexts a b \<noteq> []" using assms(1,2) by (simp add: subtractionTexts_Nil segmentBasic_def)
  ultimately have "expressions (Subtraction_new a b) \<noteq> []" by (metis set_empty)
  then show ?thesis
    using assms mask_or_less [of "usedDigits a" "usedDigits b"] mask_or_pos [of "usedDigits a" "usedDigits b"]
    by (simp add: segmentBasic_def)
qed

subsection \<open>The property of the texts is kept by the constructors\<close>

lemma textAtom_numberToString: "0 \<le> v \<Longrightarrow> textAtom (numberToString v) v"
  using textAtom_natToString [of "nat v"] by (simp add: numberToString_def)

lemma segmentText_digitAt:
  "0 \<le> i \<Longrightarrow> i \<le> 3 \<Longrightarrow> 0 \<le> d \<Longrightarrow> segmentText (digitAt d i)"
  by (simp add: digitAt_eq segmentText_def textAtom_numberToString textAtom_textExpr)

lemma segmentText_Combination:
  assumes "segmentText a" "segmentText b" "isValid (Combination_new a b)"
  shows "segmentText (Combination_new a b)"
proof -
  have "isNumber a" "isNumber b" using assms(3) by (simp_all add: Combination_new_valid)
  then have "0 \<le> value' a" "0 \<le> value' b" using assms(1,2) by (simp_all add: segmentText_def)
  then have "0 \<le> combinationValue a b" by (simp add: combinationValue_def)
  then show ?thesis
    by (subst Combination_new_eq [OF assms(3)])
       (simp add: segmentText_def textAtom_numberToString textAtom_textExpr)
qed

lemma segmentText_Addition:
  assumes "segmentText a" "segmentText b" "isValid (Addition_new a b)"
  shows "segmentText (Addition_new a b)"
proof -
  have "textExpr e (value' a + value' b)" if "e \<in> set (additionTexts a b)" for e
  proof -
    from that obtain ea eb where e: "ea \<in> set (expressions a)" "eb \<in> set (expressions b)"
      "e = ea @ '' + '' @ eb \<or> e = eb @ '' + '' @ ea"
      unfolding set_additionTexts by blast
    have ta: "textExpr ea (value' a)" and tb: "textExpr eb (value' b)"
      using assms(1,2) e(1,2) by (simp_all add: segmentText_def)
    show ?thesis using e(3) textExpr_plus [OF ta tb] textExpr_plus [OF tb ta]
      by (auto simp: add.commute)
  qed
  then show ?thesis using assms(3)
    by (simp add: segmentText_def set_expressions_Addition_new del: Addition_new_fields(7))
qed

lemma segmentText_Subtraction:
  assumes "segmentText a" "segmentText b" "isValid (Subtraction_new a b)"
  shows "segmentText (Subtraction_new a b)"
proof -
  have "textExpr e (value' a - value' b)" if "e \<in> set (subtractionTexts a b)" for e
  proof -
    from that obtain ea eb where e: "ea \<in> set (expressions a)" "eb \<in> set (expressions b)"
      "e = ea @ '' - '' @ (if isDistributive b then ''('' @ eb @ '')'' else eb)"
      unfolding set_subtractionTexts by blast
    have ta: "textExpr ea (value' a)" and tb: "textExpr eb (value' b)"
      using assms(1,2) e(1,2) by (simp_all add: segmentText_def)
    have "textAtom (if isDistributive b then ''('' @ eb @ '')'' else eb) (value' b)"
    proof (cases "isDistributive b")
      case True
      then show ?thesis using textAtom_paren [OF tb] by simp
    next
      case False
      then show ?thesis using assms(2) e(2) by (simp add: segmentText_def)
    qed
    from textExpr_minus [OF ta this] show ?thesis by (simp only: e(3))
  qed
  then show ?thesis using assms(3)
    by (simp add: segmentText_def set_expressions_Subtraction_new del: Subtraction_new_fields(7))
qed

subsection \<open>Equal segments\<close>

lemma equals_iff:
  "equals a b \<longleftrightarrow> value' a = value' b \<and> set (expressions a) \<inter> set (expressions b) \<noteq> {}"
  by (auto simp: equals_def list_ex_iff)

lemma operationExistsIn_iff:
  "operationExistsIn operation l \<longleftrightarrow> (\<exists>s\<in>set l. equals s operation)"
  by (simp add: operationExistsIn_def list_ex_iff)

lemma toString_in:
  "expressions s \<noteq> [] \<Longrightarrow> \<exists>e. toString s = Some e \<and> e \<in> set (expressions s)"
  by (cases "expressions s") (simp_all add: toString_def)

lemma operationsApart_append:
  assumes "operationsApart xs" and "\<forall>s\<in>set xs. \<not> equals s x"
  shows "operationsApart (xs @ [x])"
  unfolding operationsApart_def
proof (intro allI impI)
  fix i j
  assume h: "i < j \<and> j < length (xs @ [x]) \<and> isDistributive ((xs @ [x]) ! j)"
  show "\<not> equals ((xs @ [x]) ! i) ((xs @ [x]) ! j)"
  proof (cases "j < length xs")
    case True
    then show ?thesis using h assms(1) by (simp add: operationsApart_def nth_append)
  next
    case False
    then have j: "j = length xs" using h by simp
    then have "i < length xs" using h by simp
    then show ?thesis using assms(2) j by (simp add: nth_append)
  qed
qed

lemma operationsApart_butlast:
  assumes "operationsApart (xs @ [x])"
  shows "operationsApart xs"
  unfolding operationsApart_def
proof (intro allI impI)
  fix i j
  assume h: "i < j \<and> j < length xs \<and> isDistributive (xs ! j)"
  then have "i < j \<and> j < length (xs @ [x]) \<and> isDistributive ((xs @ [x]) ! j)"
    by (simp add: nth_append)
  then have "\<not> equals ((xs @ [x]) ! i) ((xs @ [x]) ! j)"
    using assms unfolding operationsApart_def by blast
  then show "\<not> equals (xs ! i) (xs ! j)" using h by (simp add: nth_append)
qed

lemma operationsApart_last:
  assumes "operationsApart (xs @ [x])" "isDistributive x" "s \<in> set xs"
  shows "\<not> equals s x"
proof -
  from assms(3) obtain i where i: "i < length xs" "xs ! i = s" by (auto simp: in_set_conv_nth)
  have "i < length xs \<and> length xs < length (xs @ [x]) \<and> isDistributive ((xs @ [x]) ! length xs)"
    using i(1) assms(2) by simp
  then have "\<not> equals ((xs @ [x]) ! i) ((xs @ [x]) ! length xs)"
    using assms(1) unfolding operationsApart_def by blast
  then show ?thesis using i by (simp add: nth_append)
qed

subsection \<open>Solutions of a list of segments\<close>

lemma solutionsOf_append:
  "solutionsOf (xs @ [x]) v =
     solutionsOf xs v @ (if isSolution x \<and> value' x = v then [toString x] else [])"
  by (simp add: solutionsOf_def)

lemma solutionsOf_member:
  "t \<in> set (solutionsOf xs v) \<longleftrightarrow> (\<exists>s\<in>set xs. isSolution s \<and> value' s = v \<and> t = toString s)"
  by (auto simp: solutionsOf_def)

lemma solutionsOf_distinct:
  assumes "operationsApart xs" and "\<forall>s\<in>set xs. segmentBasic s"
  shows "distinct (solutionsOf xs v)"
  using assms
proof (induction xs rule: rev_induct)
  case Nil
  then show ?case by (simp add: solutionsOf_def)
next
  case (snoc x xs)
  have ih: "distinct (solutionsOf xs v)"
    using snoc.IH operationsApart_butlast [OF snoc.prems(1)] snoc.prems(2) by simp
  show ?case
  proof (cases "isSolution x \<and> value' x = v")
    case False
    then have "solutionsOf (xs @ [x]) v = solutionsOf xs v" by (auto simp: solutionsOf_append)
    then show ?thesis using ih by simp
  next
    case True
    have bx: "segmentBasic x" using snoc.prems(2) by simp
    then have dx: "isDistributive x" using True by (simp add: segmentBasic_def)
    have "toString x \<notin> set (solutionsOf xs v)"
    proof
      assume "toString x \<in> set (solutionsOf xs v)"
      then obtain s where s: "s \<in> set xs" "value' s = v" "toString x = toString s"
        unfolding solutionsOf_member by blast
      have "segmentBasic s" using snoc.prems(2) s(1) by simp
      then obtain e where e: "toString s = Some e" "e \<in> set (expressions s)"
        using toString_in [of s] by (auto simp: segmentBasic_def)
      from bx obtain e' where e': "toString x = Some e'" "e' \<in> set (expressions x)"
        using toString_in [of x] by (auto simp: segmentBasic_def)
      have "e' = e" using e(1) e'(1) s(3) by simp
      then have "equals s x" using e(2) e'(2) s(2) True by (auto simp: equals_iff)
      then show False using operationsApart_last [OF snoc.prems(1) dx s(1)] by simp
    qed
    then show ?thesis using ih True by (simp add: solutionsOf_append)
  qed
qed

lemma solutionsLinked_append_other:
  assumes "solutionsLinked sols xs" "\<not> isSolution x"
  shows "solutionsLinked sols (xs @ [x])"
proof -
  have "solutionsOf (xs @ [x]) v = solutionsOf xs v" for v
    using assms(2) by (simp add: solutionsOf_append)
  then show ?thesis using assms unfolding solutionsLinked_def by auto
qed

lemma solutionsLinked_addSolution:
  assumes l: "solutionsLinked (solutions c) xs" and x: "isSolution x"
  shows "solutionsLinked (solutions (addSolution c (value' x) (toString x))) (xs @ [x])"
proof (cases "list_ex (\<lambda>entry. fst entry = value' x) (solutions c)")
  case True
  let ?f = "\<lambda>entry. if fst entry = value' x then (fst entry, snd entry @ [toString x]) else entry"
  have new: "solutions (addSolution c (value' x) (toString x)) = map ?f (solutions c)"
    using True by (simp add: addSolution_def)
  have keys: "map fst (map ?f (solutions c)) = map fst (solutions c)"
    by (induction "solutions c") auto
  have k0: "value' x \<in> fst ` set (solutions c)" using True by (force simp: list_ex_iff)
  have d: "distinct (map fst (map ?f (solutions c)))" using l by (simp only: keys solutionsLinked_def)
  have e: "\<forall>entry\<in>set (map ?f (solutions c)).
             snd entry = solutionsOf (xs @ [x]) (fst entry) \<and> snd entry \<noteq> []"
    using l x by (auto simp: solutionsLinked_def solutionsOf_append)
  have "fst ` set (map ?f (solutions c)) = fst ` set (solutions c)"
    using keys by (metis list.set_map)
  then have k: "\<forall>s\<in>set (xs @ [x]). isSolution s \<longrightarrow> value' s \<in> fst ` set (map ?f (solutions c))"
    using l k0 by (simp add: solutionsLinked_def)
  show ?thesis unfolding new solutionsLinked_def using d e k by blast
next
  case False
  have new: "solutions (addSolution c (value' x) (toString x)) = solutions c @ [(value' x, [toString x])]"
    using False by (simp add: addSolution_def)
  have k0: "value' x \<notin> fst ` set (solutions c)" using False by (force simp: list_ex_iff)
  have "\<forall>s\<in>set xs. \<not> (isSolution s \<and> value' s = value' x)"
  proof (intro ballI notI)
    fix s
    assume "s \<in> set xs" "isSolution s \<and> value' s = value' x"
    then have "value' x \<in> fst ` set (solutions c)"
      using l unfolding solutionsLinked_def by metis
    then show False using k0 by simp
  qed
  then have empty: "solutionsOf xs (value' x) = []" by (simp add: solutionsOf_def)
  have d: "distinct (map fst (solutions c @ [(value' x, [toString x])]))"
    using l k0 by (simp add: solutionsLinked_def)
  have e: "\<forall>entry\<in>set (solutions c @ [(value' x, [toString x])]).
             snd entry = solutionsOf (xs @ [x]) (fst entry) \<and> snd entry \<noteq> []"
    using l x k0 empty by (auto simp: solutionsLinked_def solutionsOf_append)
  have k: "\<forall>s\<in>set (xs @ [x]). isSolution s \<longrightarrow> value' s \<in> fst ` set (solutions c @ [(value' x, [toString x])])"
    using l by (auto simp: solutionsLinked_def)
  show ?thesis unfolding new solutionsLinked_def using d e k by blast
qed

subsection \<open>The invariant of the search\<close>

lemma roundInv_addOperation:
  assumes q: "roundInv segs st" and v: "isValid operation \<Longrightarrow> segmentBasic operation"
  shows "roundInv segs (addOperation (fst st) operation (snd st))"
proof (cases "accepts (fst st) operation (snd st)")
  case False
  then show ?thesis using q by (simp add: addOperation_cases roundInv_def)
next
  case True
  have sg: "segments (fst st) = segs" using q by (simp add: roundInv_def)
  have b: "segmentBasic operation" using v True by (simp add: accepts_def)
  have ne: "\<forall>s\<in>set (segs @ snd st). \<not> equals s operation"
    using True sg by (auto simp: accepts_def operationExistsIn_iff)
  have a0: "operationsApart (segs @ snd st)" using q by (simp add: roundInv_def)
  have apart: "operationsApart ((segs @ snd st) @ [operation])"
    by (rule operationsApart_append [OF a0 ne])
  have l: "solutionsLinked (solutions (fst st)) (segs @ snd st)" using q by (simp add: roundInv_def)
  show ?thesis
  proof (cases "isSolution operation")
    case True
    have "solutionsLinked (solutions (addSolution (fst st) (value' operation) (toString operation)))
            ((segs @ snd st) @ [operation])"
      by (rule solutionsLinked_addSolution [OF l True])
    then show ?thesis using \<open>accepts (fst st) operation (snd st)\<close> True q b apart sg
      by (simp add: addOperation_cases roundInv_def)
  next
    case False
    have "solutionsLinked (solutions (fst st)) ((segs @ snd st) @ [operation])"
      by (rule solutionsLinked_append_other [OF l False])
    then show ?thesis using \<open>accepts (fst st) operation (snd st)\<close> False q b apart sg
      by (simp add: addOperation_cases roundInv_def)
  qed
qed

lemma roundInv_operationStep:
  assumes q: "roundInv segs st" and a: "segmentBasic a" and b: "segmentBasic b"
  shows "roundInv segs (operationStep a b st)"
proof (cases "haveRepeatingDigits a b")
  case True
  then show ?thesis using q by (simp add: operationStep_def)
next
  case False
  have one: "roundInv segs (addOperation (fst st) (Addition_new a b) (snd st))"
    by (rule roundInv_addOperation [OF q segmentBasic_Addition [OF a b]])
  have "roundInv segs (addOperation (fst (addOperation (fst st) (Addition_new a b) (snd st)))
          (Subtraction_new a b) (snd (addOperation (fst st) (Addition_new a b) (snd st))))"
    by (rule roundInv_addOperation [OF one segmentBasic_Subtraction [OF a b]])
  then show ?thesis using False by (simp add: operationStep_def Let_def)
qed

lemma roundInv_operationRound:
  assumes "calculatorInv c"
  shows "roundInv (segments c) (operationRound c)"
  unfolding operationRound_pairs
proof (rule fold_invariant [where Q = "roundInv (segments c)"])
  show "roundInv (segments c) (c, [])" using assms by (simp add: roundInv_def calculatorInv_def)
next
  fix p and st :: "Calculator \<times> Segment list"
  assume q: "roundInv (segments c) st" and p: "p \<in> set (List.product (segments c) (segments c))"
  have "segmentBasic (fst p)" "segmentBasic (snd p)"
    using p assms by (auto simp: calculatorInv_def)
  then show "roundInv (segments c) (operationStep (fst p) (snd p) st)"
    by (rule roundInv_operationStep [OF q])
qed

lemma calculatorInv_roundResult:
  assumes "calculatorInv c"
  shows "calculatorInv (roundResult c)"
  using roundInv_operationRound [OF assms] assms
  by (auto simp: calculatorInv_def roundInv_def segments_roundResult solutions_roundResult)

lemma numberProperty_digitAt:
  "0 \<le> i \<Longrightarrow> i \<le> 3 \<Longrightarrow>
   segmentBasic (digitAt d i) \<and> \<not> isSolution (digitAt d i) \<and> \<not> isDistributive (digitAt d i)"
  using segmentBasic_digitAt [of i d] by (simp add: digitAt_eq)

lemma numberProperty_Combination:
  assumes "segmentBasic a" "segmentBasic b" "isValid (Combination_new a b)"
  shows "segmentBasic (Combination_new a b) \<and> \<not> isSolution (Combination_new a b) \<and>
         \<not> isDistributive (Combination_new a b)"
proof -
  have "\<not> isDistributive (Combination_new a b)"
    by (subst Combination_new_eq [OF assms(3)]) simp
  then show ?thesis using segmentBasic_Combination [OF assms] by simp
qed

lemma Calculator_new_invariant:
  assumes new: "Calculator_new digits = Some (Inr c)"
  shows "calculatorInv c"
proof -
  let ?P = "\<lambda>s. segmentBasic s \<and> \<not> isSolution s \<and> \<not> isDistributive s"
  have len: "length digits = 4" by (rule Calculator_new_length [OF new])
  from Calculator_new_cases [OF len] obtain c0 where
    c0: "solutions c0 = []"
    "\<forall>s\<in>set (segments c0). \<exists>d i. d \<in> set digits \<and> 0 \<le> i \<and> i \<le> 3 \<and> s = digitAt d i"
    "Calculator_new digits = map_option Inr (generateOperations (addNumberCombinations c0))" by blast
  have p0: "\<forall>s\<in>set (segments c0). ?P s"
  proof
    fix s
    assume "s \<in> set (segments c0)"
    then obtain d i where "0 \<le> i" "i \<le> 3" "s = digitAt d i" using c0(2) by blast
    then show "?P s" using numberProperty_digitAt by simp
  qed
  have p1: "\<forall>s\<in>set (segments (addNumberCombinations c0)). ?P s"
  proof (rule addNumberCombinations_all [OF p0])
    fix a b
    assume "?P a" "?P b" "isValid (Combination_new a b)"
    then show "?P (Combination_new a b)" using numberProperty_Combination by blast
  qed
  have "solutionsLinked [] (segments (addNumberCombinations c0))"
    using p1 by (simp add: solutionsLinked_def)
  moreover have "operationsApart (segments (addNumberCombinations c0))"
    unfolding operationsApart_def using p1 by (metis nth_mem)
  ultimately have i1: "calculatorInv (addNumberCombinations c0)"
    using p1 c0(1) by (simp add: calculatorInv_def)
  from new [unfolded c0(3)]
  have g: "generateOperations (addNumberCombinations c0) = Some c" by auto
  show ?thesis
    by (rule generateOperations_invariant [where Inv = calculatorInv, OF g i1])
       (rule calculatorInv_roundResult)
qed

subsection \<open>Counting positions\<close>

lemma usedCount_le: "usedCount m \<le> 4"
  by (simp add: usedCount_def)

lemma usedCount_or:
  assumes "a AND b = (0::nat)"
  shows "usedCount (a OR b) = usedCount a + usedCount b"
proof -
  have "\<not> (bit a i \<and> bit b i)" for i :: nat
  proof -
    have "bit (a AND b) i = (bit a i \<and> bit b i)" by (simp add: bit_and_iff)
    then show ?thesis using assms by simp
  qed
  then have "\<not> (bit a 0 \<and> bit b 0)" "\<not> (bit a 1 \<and> bit b 1)" "\<not> (bit a 2 \<and> bit b 2)"
    "\<not> (bit a 3 \<and> bit b 3)" by blast+
  then show ?thesis by (auto simp: usedCount_def bit_or_iff)
qed

lemma usedCount_pos:
  assumes "0 < m" "m < 16"
  shows "0 < usedCount m"
proof -
  have "m = 1 \<or> m = 2 \<or> m = 3 \<or> m = 4 \<or> m = 5 \<or> m = 6 \<or> m = 7 \<or> m = 8 \<or> m = 9 \<or>
        m = 10 \<or> m = 11 \<or> m = 12 \<or> m = 13 \<or> m = 14 \<or> m = 15"
    using assms by arith
  then show ?thesis by (elim disjE; simp add: usedCount_def bit_Suc_0_iff)
qed

subsection \<open>Closed pairs\<close>

lemma equals_self: "expressions s \<noteq> [] \<Longrightarrow> equals s s"
  by (cases "expressions s") (simp_all add: equals_iff)

lemma stale_mono:
  assumes "stale (segs @ l) operation" "set l \<subseteq> set l'"
  shows "stale (segs @ l') operation"
  using assms by (auto simp: stale_def operationExistsIn_iff)

lemma snd_addOperation_subset: "set l \<subseteq> set (snd (addOperation c operation l))"
  by (auto simp: addOperation_cases)

lemma addOperation_stale:
  assumes "isValid operation \<Longrightarrow> expressions operation \<noteq> []"
  shows "stale (segments c @ snd (addOperation c operation l)) operation"
proof (cases "accepts c operation l")
  case True
  then have "equals operation operation" using assms equals_self by (simp add: accepts_def)
  then show ?thesis using True by (auto simp: addOperation_cases stale_def operationExistsIn_iff)
next
  case False
  then show ?thesis by (auto simp: addOperation_cases accepts_def stale_def operationExistsIn_iff)
qed

lemma addOperation_batch:
  assumes "\<forall>n\<in>set l. R n" "accepts c operation l \<Longrightarrow> R operation"
  shows "\<forall>n\<in>set (snd (addOperation c operation l)). R n"
  using assms by (auto simp: addOperation_cases)

lemma accepted_not_stale:
  "accepts c operation l \<Longrightarrow> \<not> stale (segments c) operation"
  by (simp add: accepts_def stale_def)

lemma fresh_operand:
  assumes cl: "pairsClosed old (old @ new)"
    and a: "a \<in> set (old @ new)" and b: "b \<in> set (old @ new)"
    and nr: "\<not> haveRepeatingDigits a b"
    and fresh: "\<not> stale (old @ new) (Addition_new a b) \<or> \<not> stale (old @ new) (Subtraction_new a b)"
  shows "a \<in> set new \<or> b \<in> set new"
proof (rule ccontr)
  assume "\<not> (a \<in> set new \<or> b \<in> set new)"
  then have "a \<in> set old" "b \<in> set old" using a b by auto
  then have "stale (old @ new) (Addition_new a b) \<and> stale (old @ new) (Subtraction_new a b)"
    using cl nr unfolding pairsClosed_def by blast
  then show False using fresh by blast
qed

lemma usedCount_operands:
  assumes ba: "segmentBasic a" and bb: "segmentBasic b"
    and nr: "\<not> haveRepeatingDigits a b"
    and k: "k \<le> usedCount (usedDigits a) \<or> k \<le> usedCount (usedDigits b)"
  shows "Suc k \<le> usedCount (usedDigits a OR usedDigits b)"
proof -
  have "usedDigits a AND usedDigits b = 0" using nr by (simp add: haveRepeatingDigits_iff)
  then have "usedCount (usedDigits a OR usedDigits b) = usedCount (usedDigits a) + usedCount (usedDigits b)"
    by (rule usedCount_or)
  moreover have "0 < usedCount (usedDigits a)" "0 < usedCount (usedDigits b)"
    using ba bb by (simp_all add: segmentBasic_def usedCount_pos)
  ultimately show ?thesis using k by arith
qed

subsection \<open>A round closes the pairs of the registry\<close>

lemma closingInv_step:
  assumes basic: "\<forall>s\<in>set (old @ new). segmentBasic s"
    and cl: "pairsClosed old (old @ new)"
    and rk: "\<forall>s\<in>set new. k \<le> usedCount (usedDigits s)"
    and q: "closingInv (old @ new) k pre st"
    and a: "a \<in> set (old @ new)" and b: "b \<in> set (old @ new)"
  shows "closingInv (old @ new) k (pre @ [(a, b)]) (operationStep a b st)"
proof (cases "haveRepeatingDigits a b")
  case True
  then show ?thesis using q by (simp add: operationStep_def closingInv_def)
next
  case False
  let ?segs = "old @ new"
  let ?add = "Addition_new a b" and ?sub = "Subtraction_new a b"
  let ?st1 = "addOperation (fst st) ?add (snd st)"
  let ?st2 = "addOperation (fst ?st1) ?sub (snd ?st1)"
  have ba: "segmentBasic a" and bb: "segmentBasic b" using basic a b by blast+
  have sg: "segments (fst st) = ?segs" using q by (simp add: closingInv_def)
  have sg1: "segments (fst ?st1) = ?segs" using sg by simp
  have count: "Suc k \<le> usedCount (usedDigits a OR usedDigits b)"
    if "\<not> stale ?segs ?add \<or> \<not> stale ?segs ?sub"
  proof -
    have "a \<in> set new \<or> b \<in> set new" by (rule fresh_operand [OF cl a b False that])
    then have "k \<le> usedCount (usedDigits a) \<or> k \<le> usedCount (usedDigits b)" using rk by blast
    then show ?thesis by (rule usedCount_operands [OF ba bb False])
  qed
  have r0: "\<forall>n\<in>set (snd st). Suc k \<le> usedCount (usedDigits n)" using q by (simp add: closingInv_def)
  have r1: "\<forall>n\<in>set (snd ?st1). Suc k \<le> usedCount (usedDigits n)"
  proof (rule addOperation_batch [OF r0])
    assume "accepts (fst st) ?add (snd st)"
    then have "\<not> stale ?segs ?add" using accepted_not_stale [of "fst st"] sg by simp
    then show "Suc k \<le> usedCount (usedDigits ?add)" using count by simp
  qed
  have r2: "\<forall>n\<in>set (snd ?st2). Suc k \<le> usedCount (usedDigits n)"
  proof (rule addOperation_batch [OF r1])
    assume "accepts (fst ?st1) ?sub (snd ?st1)"
    then have "\<not> stale ?segs ?sub" using accepted_not_stale [of "fst ?st1"] sg1 by simp
    then show "Suc k \<le> usedCount (usedDigits ?sub)" using count by simp
  qed
  have sub01: "set (snd st) \<subseteq> set (snd ?st1)" by (rule snd_addOperation_subset)
  have sub12: "set (snd ?st1) \<subseteq> set (snd ?st2)" by (rule snd_addOperation_subset)
  have ea: "isValid ?add \<Longrightarrow> expressions ?add \<noteq> []"
    using segmentBasic_Addition [OF ba bb] by (simp add: segmentBasic_def)
  have es: "isValid ?sub \<Longrightarrow> expressions ?sub \<noteq> []"
    using segmentBasic_Subtraction [OF ba bb] by (simp add: segmentBasic_def)
  have "stale (segments (fst st) @ snd ?st1) ?add" by (rule addOperation_stale [OF ea])
  then have "stale (?segs @ snd ?st1) ?add" by (simp only: sg)
  then have s_add: "stale (?segs @ snd ?st2) ?add" using sub12 by (rule stale_mono)
  have "stale (segments (fst ?st1) @ snd ?st2) ?sub" by (rule addOperation_stale [OF es])
  then have s_sub: "stale (?segs @ snd ?st2) ?sub" by (simp only: sg1)
  have old_pairs: "\<forall>p\<in>set pre. \<not> haveRepeatingDigits (fst p) (snd p) \<longrightarrow>
        stale (?segs @ snd ?st2) (Addition_new (fst p) (snd p)) \<and>
        stale (?segs @ snd ?st2) (Subtraction_new (fst p) (snd p))"
  proof (intro ballI impI)
    fix p
    assume p: "p \<in> set pre" "\<not> haveRepeatingDigits (fst p) (snd p)"
    then have "stale (?segs @ snd st) (Addition_new (fst p) (snd p))"
      "stale (?segs @ snd st) (Subtraction_new (fst p) (snd p))"
      using q unfolding closingInv_def by blast+
    then show "stale (?segs @ snd ?st2) (Addition_new (fst p) (snd p)) \<and>
        stale (?segs @ snd ?st2) (Subtraction_new (fst p) (snd p))"
      using sub01 sub12 stale_mono by (meson subset_trans)
  qed
  have step: "operationStep a b st = ?st2" using False by (simp add: operationStep_def Let_def)
  have sg2: "segments (fst ?st2) = ?segs" using sg1 by simp
  show ?thesis
    unfolding step closingInv_def using sg2 r2 s_add s_sub old_pairs by simp
qed

lemma closing_round:
  assumes basic: "\<forall>s\<in>set (old @ new). segmentBasic s"
    and seg: "segments c = old @ new"
    and cl: "pairsClosed old (old @ new)"
    and rk: "\<forall>s\<in>set new. k \<le> usedCount (usedDigits s)"
  shows "(\<forall>n\<in>set (snd (operationRound c)). Suc k \<le> usedCount (usedDigits n)) \<and>
         pairsClosed (old @ new) ((old @ new) @ snd (operationRound c))"
proof -
  let ?segs = "old @ new"
  let ?pairs = "List.product ?segs ?segs"
  have "closingInv ?segs k ?pairs (fold (\<lambda>p. operationStep (fst p) (snd p)) ?pairs (c, []))"
  proof (rule fold_prefix_invariant [where Q = "closingInv ?segs k"])
    show "closingInv ?segs k [] (c, [])" using seg by (simp add: closingInv_def)
  next
    fix pre p and st :: "Calculator \<times> Segment list"
    assume q: "closingInv ?segs k pre st" and p: "p \<in> set ?pairs"
    have a: "fst p \<in> set ?segs" and b: "snd p \<in> set ?segs" using p by auto
    have "closingInv ?segs k (pre @ [(fst p, snd p)]) (operationStep (fst p) (snd p) st)"
      by (rule closingInv_step [OF basic cl rk q a b])
    then show "closingInv ?segs k (pre @ [p]) (operationStep (fst p) (snd p) st)" by simp
  qed
  then have q: "closingInv ?segs k ?pairs (operationRound c)"
    by (simp add: operationRound_pairs seg)
  have "pairsClosed ?segs (?segs @ snd (operationRound c))"
    unfolding pairsClosed_def
  proof (intro ballI impI)
    fix a b
    assume ab: "a \<in> set ?segs" "b \<in> set ?segs" "\<not> haveRepeatingDigits a b"
    then have "(a, b) \<in> set ?pairs" by simp
    then show "stale (?segs @ snd (operationRound c)) (Addition_new a b) \<and>
               stale (?segs @ snd (operationRound c)) (Subtraction_new a b)"
      using q ab(3) unfolding closingInv_def by fastforce
  qed
  then show ?thesis using q by (simp add: closingInv_def)
qed

lemma frontier_roundResult:
  assumes "frontier k c"
  shows "frontier (Suc k) (roundResult c) \<and> (4 \<le> k \<longrightarrow> snd (operationRound c) = [])"
proof -
  from assms obtain old new where
    basic: "\<forall>s\<in>set (segments c). segmentBasic s" and seg: "segments c = old @ new"
    and cl: "pairsClosed old (segments c)" and rk: "\<forall>s\<in>set new. k \<le> usedCount (usedDigits s)"
    unfolding frontier_def by blast
  have r: "(\<forall>n\<in>set (snd (operationRound c)). Suc k \<le> usedCount (usedDigits n)) \<and>
         pairsClosed (old @ new) ((old @ new) @ snd (operationRound c))"
    using closing_round [of old new c k] basic seg cl rk by simp
  have b': "\<forall>s\<in>set (segments (roundResult c)). segmentBasic s"
    by (rule roundResult_all [OF basic segmentBasic_Addition segmentBasic_Subtraction])
  have "segments (roundResult c) = segments c @ snd (operationRound c) \<and>
        pairsClosed (segments c) (segments (roundResult c)) \<and>
        (\<forall>s\<in>set (snd (operationRound c)). Suc k \<le> usedCount (usedDigits s))"
    using r by (simp add: segments_roundResult seg)
  then have f: "frontier (Suc k) (roundResult c)" unfolding frontier_def using b' by blast
  have "snd (operationRound c) = []" if "4 \<le> k"
  proof (cases "snd (operationRound c)")
    case Nil
    then show ?thesis .
  next
    case (Cons n ns)
    then have "Suc k \<le> usedCount (usedDigits n)" using r by simp
    then show ?thesis using that usedCount_le [of "usedDigits n"] by simp
  qed
  then show ?thesis using f by blast
qed

lemma generateOperations_terminates:
  "frontier k c \<Longrightarrow> \<exists>c'. generateOperations c = Some c'"
proof (induction "4 - k" arbitrary: k c)
  case 0
  then have "snd (operationRound c) = []" using frontier_roundResult [of k c] by simp
  then show ?case by (subst generateOperations_unfold) simp
next
  case (Suc n)
  show ?case
  proof (cases "snd (operationRound c) = []")
    case True
    then show ?thesis by (subst generateOperations_unfold) simp
  next
    case False
    have "n = 4 - Suc k" using Suc.hyps(2) by simp
    moreover have "frontier (Suc k) (roundResult c)" using frontier_roundResult [OF Suc.prems] by simp
    ultimately have "\<exists>c'. generateOperations (roundResult c) = Some c'" by (rule Suc.hyps(1))
    then show ?thesis using False by (subst generateOperations_unfold) simp
  qed
qed

subsection \<open>The operations of one round\<close>

lemma batchApart_addOperation:
  assumes "batchApart (segments c) l"
  shows "batchApart (segments c) (snd (addOperation c operation l))"
proof (cases "accepts c operation l")
  case False
  then show ?thesis using assms by (simp add: addOperation_cases)
next
  case True
  have "\<not> operationExistsIn ((l @ [operation]) ! j) (segments c) \<and>
        \<not> operationExistsIn ((l @ [operation]) ! j) (take j (l @ [operation]))"
    if "j < length (l @ [operation])" for j
  proof (cases "j < length l")
    case True
    then show ?thesis using assms by (simp add: batchApart_def nth_append)
  next
    case False
    then have "j = length l" using that by simp
    then show ?thesis using \<open>accepts c operation l\<close> by (simp add: accepts_def)
  qed
  then show ?thesis using True by (simp add: addOperation_cases batchApart_def)
qed

lemma batchApart_operationRound: "batchApart (segments c) (snd (operationRound c))"
proof -
  let ?Q = "\<lambda>st :: Calculator \<times> Segment list. segments (fst st) = segments c \<and> batchApart (segments c) (snd st)"
  have "?Q (fold (\<lambda>p. operationStep (fst p) (snd p)) (List.product (segments c) (segments c)) (c, []))"
  proof (rule fold_invariant [where Q = ?Q])
    show "?Q (c, [])" by (simp add: batchApart_def)
  next
    fix p and st :: "Calculator \<times> Segment list"
    assume q: "?Q st"
    have one: "?Q (addOperation (fst st1) operation (snd st1))" if "?Q st1"
      for operation and st1 :: "Calculator \<times> Segment list"
      using that batchApart_addOperation [of "fst st1" "snd st1" operation] by simp
    have "?Q (addOperation (fst st) (Addition_new (fst p) (snd p)) (snd st))" by (rule one [OF q])
    then have "?Q (addOperation (fst (addOperation (fst st) (Addition_new (fst p) (snd p)) (snd st)))
               (Subtraction_new (fst p) (snd p))
               (snd (addOperation (fst st) (Addition_new (fst p) (snd p)) (snd st))))" by (rule one)
    then show "?Q (operationStep (fst p) (snd p) st)"
      using q by (simp add: operationStep_def Let_def)
  qed
  then show ?thesis by (simp add: operationRound_pairs)
qed

lemma Calculator_new_returns:
  assumes "length digits = 4"
  shows "\<exists>c. Calculator_new digits = Some (Inr c)"
proof -
  let ?P = "\<lambda>s. segmentBasic s \<and> \<not> isSolution s \<and> \<not> isDistributive s"
  from Calculator_new_cases [OF assms] obtain c0 where
    c0: "\<forall>s\<in>set (segments c0). \<exists>d i. d \<in> set digits \<and> 0 \<le> i \<and> i \<le> 3 \<and> s = digitAt d i"
    "Calculator_new digits = map_option Inr (generateOperations (addNumberCombinations c0))" by blast
  have p0: "\<forall>s\<in>set (segments c0). ?P s"
  proof
    fix s
    assume "s \<in> set (segments c0)"
    then obtain d i where "0 \<le> i" "i \<le> 3" "s = digitAt d i" using c0(1) by blast
    then show "?P s" using numberProperty_digitAt by simp
  qed
  have p1: "\<forall>s\<in>set (segments (addNumberCombinations c0)). ?P s"
  proof (rule addNumberCombinations_all [OF p0])
    fix a b
    assume "?P a" "?P b" "isValid (Combination_new a b)"
    then show "?P (Combination_new a b)" using numberProperty_Combination by blast
  qed
  let ?c1 = "addNumberCombinations c0"
  have b1: "\<forall>s\<in>set (segments ?c1). segmentBasic s" using p1 by blast
  have "\<forall>s\<in>set (segments ?c1). 1 \<le> usedCount (usedDigits s)"
  proof
    fix s
    assume "s \<in> set (segments ?c1)"
    then have "segmentBasic s" using b1 by blast
    then have "0 < usedCount (usedDigits s)" by (simp add: segmentBasic_def usedCount_pos)
    then show "1 \<le> usedCount (usedDigits s)" by simp
  qed
  moreover have "pairsClosed [] (segments ?c1)" by (simp add: pairsClosed_def)
  moreover have "segments ?c1 = [] @ segments ?c1" by simp
  ultimately have "frontier 1 ?c1" unfolding frontier_def using b1 by blast
  then obtain c where "generateOperations ?c1 = Some c"
    using generateOperations_terminates by blast
  then show ?thesis using c0(2) by simp
qed

subsection \<open>Two runs of the calculator\<close>

lemma solutions_9999:
  "(case Calculator_new [9, 9, 9, 9] of
      Some (Inr c) \<Rightarrow>
        solutions c =
          [(99, [Some ''9 - (9 - 99)'', Some ''9 + 99 - 9'']),
           (81, [Some ''99 - 9 - 9'']),
           (36, [Some ''9 + 9 + 9 + 9'']),
           (18, [Some ''9 - (9 - (9 + 9))'', Some ''9 + 9 + 9 - 9'',
                 Some ''9 + 9 - (9 - 9)'', Some ''9 - (9 - 9 - 9)''])] \<and>
        length (segments c) = 24 \<and>
        map (\<lambda>s. (getValue s, isDistributive s, expressions s)) (take 2 (drop 15 (segments c))) =
          [(99, True, [''9 - (9 - 99)'']), (99, True, [''9 + 99 - 9'', ''99 - 9 + 9''])]
    | _ \<Rightarrow> False)"
  by code_simp

lemma calculator_9999:
  "\<exists>c. Calculator_new [9, 9, 9, 9] = Some (Inr c) \<and>
       solutions c =
          [(99, [Some ''9 - (9 - 99)'', Some ''9 + 99 - 9'']),
           (81, [Some ''99 - 9 - 9'']),
           (36, [Some ''9 + 9 + 9 + 9'']),
           (18, [Some ''9 - (9 - (9 + 9))'', Some ''9 + 9 + 9 - 9'',
                 Some ''9 + 9 - (9 - 9)'', Some ''9 - (9 - 9 - 9)''])] \<and>
        length (segments c) = 24 \<and>
        map (\<lambda>s. (getValue s, isDistributive s, expressions s)) (take 2 (drop 15 (segments c))) =
          [(99, True, [''9 - (9 - 99)'']), (99, True, [''9 + 99 - 9'', ''99 - 9 + 9''])]"
proof (cases "Calculator_new [9, 9, 9, 9]")
  case None
  then show ?thesis using solutions_9999 by simp
next
  case (Some r)
  show ?thesis
  proof (cases r)
    case (Inl e)
    then show ?thesis using Some solutions_9999 by simp
  next
    case (Inr c)
    then show ?thesis using Some solutions_9999 by simp
  qed
qed

subsection \<open>Claims about the search\<close>

lemma solution_source:
  assumes new: "Calculator_new digits = Some (Inr c)"
    and e: "entry \<in> set (solutions c)" and t: "t \<in> set (snd entry)"
  shows "\<exists>s\<in>set (segments c). segmentBasic s \<and> isSolution s \<and> value' s = fst entry \<and> toString s = t"
proof -
  have inv: "calculatorInv c" by (rule Calculator_new_invariant [OF new])
  then have "snd entry = solutionsOf (segments c) (fst entry)"
    using e by (simp add: calculatorInv_def solutionsLinked_def)
  then have "t \<in> set (solutionsOf (segments c) (fst entry))" using t by simp
  then obtain s where "s \<in> set (segments c)" "isSolution s" "value' s = fst entry" "t = toString s"
    unfolding solutionsOf_member by blast
  then show ?thesis using inv by (auto simp: calculatorInv_def)
qed

text \<open>
  Claim C1. When the constructor returns on four digits none of which is negative, every
  entry of a list of the solutions map is a text, and the text evaluates to the key of
  the list. A valid subtraction has exactly the texts \<open>a - b\<close> for the texts \<open>a\<close> and \<open>b\<close>
  of its operands, with \<open>b\<close> in parentheses when the second operand is an addition or a
  subtraction.
\<close>
theorem solutions_evaluate_to_key:
  "(Calculator_new digits = Some (Inr c) \<and> (\<forall>d\<in>set digits. 0 \<le> d) \<and>
      entry \<in> set (solutions c) \<and> t \<in> set (snd entry) \<longrightarrow>
      (\<exists>e. t = Some e \<and> evaluate e = Some (fst entry))) \<and>
   (isValid (Subtraction_new a b) \<longrightarrow>
      set (expressions (Subtraction_new a b)) =
        (\<Union>ea\<in>set (expressions a). \<Union>eb\<in>set (expressions b).
           {ea @ '' - '' @ (if isDistributive b then ''('' @ eb @ '')'' else eb)}))"
proof (intro conjI impI)
  assume h: "Calculator_new digits = Some (Inr c) \<and> (\<forall>d\<in>set digits. 0 \<le> d) \<and>
      entry \<in> set (solutions c) \<and> t \<in> set (snd entry)"
  then have new: "Calculator_new digits = Some (Inr c)" by simp
  from solution_source [OF new, of entry t] h obtain s where
    s: "s \<in> set (segments c)" "segmentBasic s" "value' s = fst entry" "toString s = t" by blast
  have "\<forall>s\<in>set (segments c). segmentText s"
  proof (rule Calculator_new_all [OF new])
    fix d i
    assume "d \<in> set digits" "0 \<le> i" "i \<le> (3::int)"
    then show "segmentText (digitAt d i)" using h by (simp add: segmentText_digitAt)
  qed (rule segmentText_Combination segmentText_Addition segmentText_Subtraction; assumption)+
  then have st: "segmentText s" using s(1) by blast
  from s(2) obtain e where e: "toString s = Some e" "e \<in> set (expressions s)"
    using toString_in [of s] by (auto simp: segmentBasic_def)
  have "textExpr e (value' s)" using st e(2) by (simp add: segmentText_def)
  then have "evaluate e = Some (fst entry)" using textExpr_evaluate s(3) by simp
  then show "\<exists>e. t = Some e \<and> evaluate e = Some (fst entry)" using e(1) s(4) by auto
next
  assume "isValid (Subtraction_new a b)"
  then show "set (expressions (Subtraction_new a b)) =
        (\<Union>ea\<in>set (expressions a). \<Union>eb\<in>set (expressions b).
           {ea @ '' - '' @ (if isDistributive b then ''('' @ eb @ '')'' else eb)})"
    by (simp only: set_expressions_Subtraction_new set_subtractionTexts if_True)
qed

text \<open>
  On the digits 9, 9, 9, 9 the text \<open>9 - (9 - 99)\<close> is a solution of 99, and the
  subtraction of \<open>9 - 9\<close> from \<open>9\<close> has the text \<open>9 - (9 - 9)\<close>.
\<close>
theorem solutions_evaluate_to_key_witness:
  "\<exists>c. Calculator_new [9, 9, 9, 9] = Some (Inr c) \<and> list_all (\<lambda>d. 0 \<le> d) [9, 9, 9, 9 :: int] \<and>
       (99, [Some ''9 - (9 - 99)'', Some ''9 + 99 - 9'']) \<in> set (solutions c) \<and>
       evaluate ''9 - (9 - 99)'' = Some 99 \<and>
       isValid (Subtraction_new (digitAt 9 0) (Subtraction_new (digitAt 9 1) (digitAt 9 2))) \<and>
       set (expressions (Subtraction_new (digitAt 9 0) (Subtraction_new (digitAt 9 1) (digitAt 9 2))))
         = {''9 - (9 - 9)''}"
proof -
  from calculator_9999 obtain c where
    c: "Calculator_new [9, 9, 9, 9] = Some (Inr c)"
    "solutions c =
          [(99, [Some ''9 - (9 - 99)'', Some ''9 + 99 - 9'']),
           (81, [Some ''99 - 9 - 9'']),
           (36, [Some ''9 + 9 + 9 + 9'']),
           (18, [Some ''9 - (9 - (9 + 9))'', Some ''9 + 9 + 9 - 9'',
                 Some ''9 + 9 - (9 - 9)'', Some ''9 - (9 - 9 - 9)''])]" by blast
  let ?entry = "(99 :: int, [Some ''9 - (9 - 99)'', Some ''9 + 99 - 9''])"
  let ?a = "digitAt 9 0" and ?b = "Subtraction_new (digitAt 9 1) (digitAt 9 2)"
  note w = solutions_evaluate_to_key [of "[9, 9, 9, 9]" c ?entry "Some ''9 - (9 - 99)''" ?a ?b]
  have nonneg: "\<forall>d\<in>set [9, 9, 9, 9 :: int]. 0 \<le> d" by simp
  have mem: "?entry \<in> set (solutions c)" by (simp add: c(2))
  have tm: "Some ''9 - (9 - 99)'' \<in> set (snd ?entry)" by simp
  from w [THEN conjunct1, rule_format, OF conjI [OF c(1) conjI [OF nonneg conjI [OF mem tm]]]]
  obtain e where "Some ''9 - (9 - 99)'' = Some e" "evaluate e = Some (fst ?entry)" by blast
  then have ev: "evaluate ''9 - (9 - 99)'' = Some 99" by simp
  have nine: "numberToString 9 = ''9''" by code_simp
  have v: "isValid (Subtraction_new ?a ?b)"
    by (simp add: digitAt_eq haveRepeatingDigits_def)
  have vb: "isValid ?b" by (simp add: digitAt_eq haveRepeatingDigits_def)
  have "set (expressions ?b) = set (subtractionTexts (digitAt 9 1) (digitAt 9 2))"
    by (simp only: set_expressions_Subtraction_new vb if_True)
  then have eb: "set (expressions ?b) = {''9 - 9''}"
    by (simp add: set_subtractionTexts digitAt_eq nine)
  from w [THEN conjunct2, rule_format, OF v]
  have "set (expressions (Subtraction_new ?a ?b)) = {''9 - (9 - 9)''}"
    by (simp add: eb) (simp add: digitAt_eq nine)
  then show ?thesis using c(1) mem ev v by auto
qed

text \<open>
  Claim C2. When the constructor returns, every key of the solutions map is between 1 and
  100, and every text of its list is the primary text of a segment of the registry that
  is a solution with that value; a segment of the registry is a solution exactly when it
  is complete with a value from 1 to 100, and so is every addition and subtraction that
  is built. \<open>addOperation\<close> leaves the solutions as they are when the operation is not a
  solution, as a complete operation of value 0 or 101 is not.
\<close>
theorem solution_keys_in_range:
  "(Calculator_new digits = Some (Inr c) \<and> entry \<in> set (solutions c) \<longrightarrow>
      1 \<le> fst entry \<and> fst entry \<le> 100 \<and>
      (\<forall>t\<in>set (snd entry). \<exists>s\<in>set (segments c).
          isSolution s \<and> getValue s = fst entry \<and> toString s = t)) \<and>
   (Calculator_new digits = Some (Inr c) \<and> s \<in> set (segments c) \<longrightarrow>
      (isSolution s \<longleftrightarrow> isComplete s \<and> 1 \<le> getValue s \<and> getValue s \<le> 100)) \<and>
   (isSolution (Addition_new a b) \<longleftrightarrow>
      isComplete (Addition_new a b) \<and> 1 \<le> getValue (Addition_new a b) \<and>
      getValue (Addition_new a b) \<le> 100) \<and>
   (isSolution (Subtraction_new a b) \<longleftrightarrow>
      isComplete (Subtraction_new a b) \<and> 1 \<le> getValue (Subtraction_new a b) \<and>
      getValue (Subtraction_new a b) \<le> 100) \<and>
   (\<not> isSolution operation \<longrightarrow> solutions (fst (addOperation c0 operation l)) = solutions c0)"
proof -
  have part1: "1 \<le> fst entry \<and> fst entry \<le> 100 \<and>
      (\<forall>t\<in>set (snd entry). \<exists>s\<in>set (segments c).
          isSolution s \<and> getValue s = fst entry \<and> toString s = t)"
    if new: "Calculator_new digits = Some (Inr c)" and e: "entry \<in> set (solutions c)"
  proof -
    have src: "\<exists>s\<in>set (segments c). segmentBasic s \<and> isSolution s \<and> value' s = fst entry \<and> toString s = t"
      if "t \<in> set (snd entry)" for t
      by (rule solution_source [OF new e that])
    have inv: "calculatorInv c" by (rule Calculator_new_invariant [OF new])
    then have "snd entry \<noteq> []" using e unfolding calculatorInv_def solutionsLinked_def by blast
    then obtain t where "t \<in> set (snd entry)" by (cases "snd entry") auto
    from src [OF this] obtain s0 where "segmentBasic s0" "isSolution s0" "value' s0 = fst entry"
      by blast
    then have "1 \<le> fst entry \<and> fst entry \<le> 100" by (auto simp: segmentBasic_def)
    then show ?thesis using src by (simp add: getValue_def) blast
  qed
  have part2: "isSolution s \<longleftrightarrow> isComplete s \<and> 1 \<le> getValue s \<and> getValue s \<le> 100"
    if new: "Calculator_new digits = Some (Inr c)" and s: "s \<in> set (segments c)"
  proof -
    let ?P = "\<lambda>s. isSolution s \<longleftrightarrow> isComplete s \<and> 1 \<le> value' s \<and> value' s \<le> 100"
    have "\<forall>s\<in>set (segments c). ?P s"
    proof (rule Calculator_new_all [OF new])
      fix d i :: int
      assume "0 \<le> i" "i \<le> 3"
      then show "?P (digitAt d i)" by (simp add: digitAt_eq)
    next
      fix a b
      assume v: "isValid (Combination_new a b)"
      show "?P (Combination_new a b)" by (subst (1 2) Combination_new_eq [OF v]) simp
    next
      fix a b
      show "?P (Addition_new a b)" by auto
    next
      fix a b
      show "?P (Subtraction_new a b)" by auto
    qed
    then show ?thesis using s by (simp add: getValue_def)
  qed
  have part3: "isSolution (Addition_new a b) \<longleftrightarrow>
      isComplete (Addition_new a b) \<and> 1 \<le> getValue (Addition_new a b) \<and>
      getValue (Addition_new a b) \<le> 100"
    by (auto simp: getValue_def)
  have part4: "isSolution (Subtraction_new a b) \<longleftrightarrow>
      isComplete (Subtraction_new a b) \<and> 1 \<le> getValue (Subtraction_new a b) \<and>
      getValue (Subtraction_new a b) \<le> 100"
    by (auto simp: getValue_def)
  have part5: "solutions (fst (addOperation c0 operation l)) = solutions c0" if "\<not> isSolution operation"
    using that by (simp add: addOperation_cases)
  show ?thesis using part1 part2 part3 part4 part5 by blast
qed

text \<open>
  On the digits 9, 9, 9, 9 the key 81 is in the range; the subtraction of \<open>9 + 9\<close> from
  \<open>9 + 9\<close> is complete with the value 0, it is not a solution, and \<open>addOperation\<close> adds
  nothing to the solutions for it.
\<close>
theorem solution_keys_in_range_witness:
  "\<exists>c. Calculator_new [9, 9, 9, 9] = Some (Inr c) \<and>
       (81, [Some ''99 - 9 - 9'']) \<in> set (solutions c) \<and>
       (\<exists>s\<in>set (segments c). isSolution s \<and> isComplete s \<and> getValue s = 81 \<and>
           toString s = Some ''99 - 9 - 9'') \<and>
       isComplete (Subtraction_new (Addition_new (digitAt 9 0) (digitAt 9 1))
                                   (Addition_new (digitAt 9 2) (digitAt 9 3))) \<and>
       getValue (Subtraction_new (Addition_new (digitAt 9 0) (digitAt 9 1))
                                 (Addition_new (digitAt 9 2) (digitAt 9 3))) = 0 \<and>
       \<not> isSolution (Subtraction_new (Addition_new (digitAt 9 0) (digitAt 9 1))
                                     (Addition_new (digitAt 9 2) (digitAt 9 3))) \<and>
       solutions (fst (addOperation c
          (Subtraction_new (Addition_new (digitAt 9 0) (digitAt 9 1))
                           (Addition_new (digitAt 9 2) (digitAt 9 3))) [])) = solutions c"
proof -
  from calculator_9999 obtain c where
    c: "Calculator_new [9, 9, 9, 9] = Some (Inr c)"
    "solutions c =
          [(99, [Some ''9 - (9 - 99)'', Some ''9 + 99 - 9'']),
           (81, [Some ''99 - 9 - 9'']),
           (36, [Some ''9 + 9 + 9 + 9'']),
           (18, [Some ''9 - (9 - (9 + 9))'', Some ''9 + 9 + 9 - 9'',
                 Some ''9 + 9 - (9 - 9)'', Some ''9 - (9 - 9 - 9)''])]" by blast
  let ?entry = "(81 :: int, [Some ''99 - 9 - 9''])"
  let ?op = "Subtraction_new (Addition_new (digitAt 9 0) (digitAt 9 1))
                             (Addition_new (digitAt 9 2) (digitAt 9 3))"
  have mem: "?entry \<in> set (solutions c)" by (simp add: c(2))
  have comp: "isComplete ?op" and val: "getValue ?op = 0"
    by (simp_all add: digitAt_eq getValue_def)
  note w = solution_keys_in_range [of "[9, 9, 9, 9]" c ?entry _
      "Addition_new (digitAt 9 0) (digitAt 9 1)" "Addition_new (digitAt 9 2) (digitAt 9 3)" ?op c "[]"]
  from w [THEN conjunct1, rule_format, OF conjI [OF c(1) mem]]
  have "\<exists>s\<in>set (segments c). isSolution s \<and> getValue s = 81 \<and> toString s = Some ''99 - 9 - 9''"
    by simp
  then obtain s where s: "s \<in> set (segments c)" "isSolution s" "getValue s = 81"
    "toString s = Some ''99 - 9 - 9''" by blast
  from solution_keys_in_range [of "[9, 9, 9, 9]" c ?entry s, THEN conjunct2, THEN conjunct1,
      rule_format, OF conjI [OF c(1) s(1)]] s(2)
  have sc: "isComplete s" by simp
  have ns: "\<not> isSolution ?op"
    using w [THEN conjunct2, THEN conjunct2, THEN conjunct2, THEN conjunct1] val
    by (metis not_one_le_zero)
  from w [THEN conjunct2, THEN conjunct2, THEN conjunct2, THEN conjunct2, rule_format, OF ns]
  have "solutions (fst (addOperation c ?op [])) = solutions c" .
  then show ?thesis using c(1) mem s sc comp val ns by blast
qed

text \<open>
  Claim C9. When the constructor returns, the solutions map has one entry for each key,
  and the list of a key \<open>v\<close> holds the primary texts of the solutions of value \<open>v\<close> in the
  order in which the segments entered the registry, without repetition. An addition or
  subtraction of the registry shares no text with an earlier segment of the same value.
\<close>
theorem solution_texts_distinct:
  "(Calculator_new digits = Some (Inr c) \<and> entry \<in> set (solutions c) \<longrightarrow>
      distinct (snd entry) \<and>
      snd entry = map toString (filter (\<lambda>s. isSolution s \<and> getValue s = fst entry) (segments c))) \<and>
   (Calculator_new digits = Some (Inr c) \<longrightarrow> distinct (map fst (solutions c))) \<and>
   (Calculator_new digits = Some (Inr c) \<and> i < j \<and> j < length (segments c) \<and>
      isDistributive (segments c ! j) \<and> getValue (segments c ! i) = getValue (segments c ! j) \<longrightarrow>
      set (expressions (segments c ! i)) \<inter> set (expressions (segments c ! j)) = {})"
proof (intro conjI impI)
  assume h: "Calculator_new digits = Some (Inr c) \<and> entry \<in> set (solutions c)"
  then have inv: "calculatorInv c" using Calculator_new_invariant by blast
  have "snd entry = solutionsOf (segments c) (fst entry)"
    using inv h by (simp add: calculatorInv_def solutionsLinked_def)
  moreover have "distinct (solutionsOf (segments c) (fst entry))"
    using inv by (intro solutionsOf_distinct) (simp_all add: calculatorInv_def)
  ultimately show "distinct (snd entry)"
    and "snd entry = map toString (filter (\<lambda>s. isSolution s \<and> getValue s = fst entry) (segments c))"
    by (simp_all add: solutionsOf_def getValue_def)
next
  assume "Calculator_new digits = Some (Inr c)"
  then have "calculatorInv c" by (rule Calculator_new_invariant)
  then show "distinct (map fst (solutions c))" by (simp add: calculatorInv_def solutionsLinked_def)
next
  assume h: "Calculator_new digits = Some (Inr c) \<and> i < j \<and> j < length (segments c) \<and>
      isDistributive (segments c ! j) \<and> getValue (segments c ! i) = getValue (segments c ! j)"
  then have "calculatorInv c" using Calculator_new_invariant by blast
  then have "operationsApart (segments c)" by (simp add: calculatorInv_def)
  then have "\<not> equals (segments c ! i) (segments c ! j)"
    using h unfolding operationsApart_def by blast
  then show "set (expressions (segments c ! i)) \<inter> set (expressions (segments c ! j)) = {}"
    using h by (simp add: equals_iff getValue_def)
qed

lemma registry_9999:
  assumes "length xs = 24"
    and "map (\<lambda>s. (getValue s, isDistributive s, expressions s)) (take 2 (drop 15 xs)) =
          [(99, True, [''9 - (9 - 99)'']), (99, True, [''9 + 99 - 9'', ''99 - 9 + 9''])]"
  shows "getValue (xs ! 15) = 99 \<and> getValue (xs ! 16) = 99 \<and> isDistributive (xs ! 16) \<and>
         expressions (xs ! 15) = [''9 - (9 - 99)''] \<and>
         expressions (xs ! 16) = [''9 + 99 - 9'', ''99 - 9 + 9'']"
proof -
  have "take 2 (drop 15 xs) = [xs ! 15, xs ! 16]"
  proof -
    have "drop 15 xs = xs ! 15 # drop 16 xs" using assms(1) by (simp add: Cons_nth_drop_Suc [symmetric])
    moreover have "drop 16 xs = xs ! 16 # drop 17 xs" using assms(1) by (simp add: Cons_nth_drop_Suc [symmetric])
    ultimately show ?thesis by (simp add: numeral_2_eq_2)
  qed
  then show ?thesis using assms(2) by simp
qed

text \<open>
  On the digits 9, 9, 9, 9 the four texts of the key 18 differ, and the segments 15 and 16
  of the registry, both of value 99, have no text in common.
\<close>
theorem solution_texts_distinct_witness:
  "\<exists>c. Calculator_new [9, 9, 9, 9] = Some (Inr c) \<and>
       (18, [Some ''9 - (9 - (9 + 9))'', Some ''9 + 9 + 9 - 9'',
             Some ''9 + 9 - (9 - 9)'', Some ''9 - (9 - 9 - 9)'']) \<in> set (solutions c) \<and>
       distinct [Some ''9 - (9 - (9 + 9))'', Some ''9 + 9 + 9 - 9'',
                 Some ''9 + 9 - (9 - 9)'', Some ''9 - (9 - 9 - 9)''] \<and>
       distinct (map fst (solutions c)) \<and>
       (15::nat) < 16 \<and> 16 < length (segments c) \<and> isDistributive (segments c ! 16) \<and>
       getValue (segments c ! 15) = getValue (segments c ! 16) \<and>
       set (expressions (segments c ! 15)) \<inter> set (expressions (segments c ! 16)) = {}"
proof -
  from calculator_9999 obtain c where
    c: "Calculator_new [9, 9, 9, 9] = Some (Inr c)"
    "solutions c =
          [(99, [Some ''9 - (9 - 99)'', Some ''9 + 99 - 9'']),
           (81, [Some ''99 - 9 - 9'']),
           (36, [Some ''9 + 9 + 9 + 9'']),
           (18, [Some ''9 - (9 - (9 + 9))'', Some ''9 + 9 + 9 - 9'',
                 Some ''9 + 9 - (9 - 9)'', Some ''9 - (9 - 9 - 9)''])]"
    "length (segments c) = 24"
    "map (\<lambda>s. (getValue s, isDistributive s, expressions s)) (take 2 (drop 15 (segments c))) =
          [(99, True, [''9 - (9 - 99)'']), (99, True, [''9 + 99 - 9'', ''99 - 9 + 9''])]"
    by (elim exE conjE) (rule that)
  let ?entry = "(18 :: int, [Some ''9 - (9 - (9 + 9))'', Some ''9 + 9 + 9 - 9'',
             Some ''9 + 9 - (9 - 9)'', Some ''9 - (9 - 9 - 9)''])"
  note r = registry_9999 [OF c(3,4)]
  note w = solution_texts_distinct [of "[9, 9, 9, 9]" c ?entry 15 16]
  have mem: "?entry \<in> set (solutions c)" by (simp add: c(2))
  from w [THEN conjunct1, rule_format, OF conjI [OF c(1) mem]]
  have "distinct (snd ?entry)" by (rule conjunct1)
  then have d: "distinct [Some ''9 - (9 - (9 + 9))'', Some ''9 + 9 + 9 - 9'',
                 Some ''9 + 9 - (9 - 9)'', Some ''9 - (9 - 9 - 9)'']" by (simp only: snd_conv)
  from w [THEN conjunct2, THEN conjunct1, rule_format, OF c(1)]
  have k: "distinct (map fst (solutions c))" .
  have h: "(15::nat) < 16" "16 < length (segments c)" "isDistributive (segments c ! 16)"
    "getValue (segments c ! 15) = getValue (segments c ! 16)"
    using r c(3) by simp_all
  from w [THEN conjunct2, THEN conjunct2, rule_format,
      OF conjI [OF c(1) conjI [OF h(1) conjI [OF h(2) conjI [OF h(3) h(4)]]]]]
  have e: "set (expressions (segments c ! 15)) \<inter> set (expressions (segments c ! 16)) = {}" .
  show ?thesis
    by (intro exI conjI) (rule c(1) mem d k h e)+
qed

text \<open>
  Claim C4. An addition and a subtraction are valid exactly when the masks of the operands
  are disjoint and, if the operation is complete, its value is between 1 and 100; an
  operation that is not complete is valid whatever its value. The constructors return a
  segment in every case, and one that is not valid is dropped: \<open>addOperation\<close> changes
  neither the batch nor the solutions, and the loops of \<open>addNumberCombinations\<close> do not keep
  a concatenation that is not valid. When the constructor of the calculator returns,
  every segment of the registry is valid, and every text of the solutions map is the
  primary text of a valid segment of the registry.
\<close>
theorem invalid_segments_discarded:
  "(isValid (Addition_new a b) \<longleftrightarrow>
      usedDigits a AND usedDigits b = 0 \<and>
      (isComplete (Addition_new a b) \<longrightarrow>
         1 \<le> getValue (Addition_new a b) \<and> getValue (Addition_new a b) \<le> 100)) \<and>
   (isValid (Subtraction_new a b) \<longleftrightarrow>
      usedDigits a AND usedDigits b = 0 \<and>
      (isComplete (Subtraction_new a b) \<longrightarrow>
         1 \<le> getValue (Subtraction_new a b) \<and> getValue (Subtraction_new a b) \<le> 100)) \<and>
   (\<not> isValid operation \<longrightarrow> addOperation c0 operation l = (c0, l)) \<and>
   (\<not> isValid (Combination_new x y) \<longrightarrow>
      fst (addTwoDigit segs x y st) = fst st \<and> addThreeDigit x y three = three) \<and>
   (Calculator_new digits = Some (Inr c) \<and> s \<in> set (segments c) \<longrightarrow> isValid s) \<and>
   (Calculator_new digits = Some (Inr c) \<and> entry \<in> set (solutions c) \<and> t \<in> set (snd entry) \<longrightarrow>
      (\<exists>s\<in>set (segments c). isValid s \<and> toString s = t))"
proof (intro conjI impI)
  assume "Calculator_new digits = Some (Inr c) \<and> s \<in> set (segments c)"
  then show "isValid s" using Calculator_new_invariant [of digits c]
    by (auto simp: calculatorInv_def segmentBasic_def)
next
  assume h: "Calculator_new digits = Some (Inr c) \<and> entry \<in> set (solutions c) \<and> t \<in> set (snd entry)"
  then obtain s where "s \<in> set (segments c)" "segmentBasic s" "toString s = t"
    using solution_source [of digits c entry t] by blast
  then show "\<exists>s\<in>set (segments c). isValid s \<and> toString s = t"
    by (auto simp: segmentBasic_def)
qed (auto simp: haveRepeatingDigits_iff getValue_def addOperation_def addTwoDigit_def
      addThreeDigit_def Let_def)

text \<open>
  On the digits 9, 9, 9, 9: segment 16 of the registry is valid, and the text of the key
  81 belongs to a valid segment. The subtraction of the second digit from the first is
  not complete and is valid with the value 0. The addition of the first digit to itself
  is not valid and \<open>addOperation\<close> drops it, as the loops drop the concatenation of the
  first digit with itself.
\<close>
theorem invalid_segments_discarded_witness:
  "\<exists>c. Calculator_new [9, 9, 9, 9] = Some (Inr c) \<and>
       segments c ! 16 \<in> set (segments c) \<and> isValid (segments c ! 16) \<and>
       (81, [Some ''99 - 9 - 9'']) \<in> set (solutions c) \<and>
       (\<exists>s\<in>set (segments c). isValid s \<and> toString s = Some ''99 - 9 - 9'') \<and>
       \<not> isComplete (Subtraction_new (digitAt 9 0) (digitAt 9 1)) \<and>
       getValue (Subtraction_new (digitAt 9 0) (digitAt 9 1)) = 0 \<and>
       isValid (Subtraction_new (digitAt 9 0) (digitAt 9 1)) \<and>
       \<not> isValid (Addition_new (digitAt 9 0) (digitAt 9 0)) \<and>
       addOperation c (Addition_new (digitAt 9 0) (digitAt 9 0)) [] = (c, []) \<and>
       \<not> isValid (Combination_new (digitAt 9 0) (digitAt 9 0)) \<and>
       fst (addTwoDigit (segments c) (digitAt 9 0) (digitAt 9 0) ([], [])) = [] \<and>
       addThreeDigit (digitAt 9 0) (digitAt 9 0) [] = []"
proof -
  from calculator_9999 obtain c where
    c: "Calculator_new [9, 9, 9, 9] = Some (Inr c)"
    "solutions c =
          [(99, [Some ''9 - (9 - 99)'', Some ''9 + 99 - 9'']),
           (81, [Some ''99 - 9 - 9'']),
           (36, [Some ''9 + 9 + 9 + 9'']),
           (18, [Some ''9 - (9 - (9 + 9))'', Some ''9 + 9 + 9 - 9'',
                 Some ''9 + 9 - (9 - 9)'', Some ''9 - (9 - 9 - 9)''])]"
    "length (segments c) = 24"
    by (elim exE conjE) (rule that)
  let ?entry = "(81 :: int, [Some ''99 - 9 - 9''])"
  let ?d = "digitAt 9 0" and ?d1 = "digitAt 9 1"
  let ?bad = "Addition_new (digitAt 9 0) (digitAt 9 0)"
  note w = invalid_segments_discarded [of ?d ?d1 ?bad c "[]" ?d ?d "segments c" "([], [])" "[]"
      "[9, 9, 9, 9]" c "segments c ! 16" ?entry "Some ''99 - 9 - 9''"]
  have s16: "segments c ! 16 \<in> set (segments c)" using c(3) by simp
  have mem: "?entry \<in> set (solutions c)" by (simp add: c(2))
  have tm: "Some ''99 - 9 - 9'' \<in> set (snd ?entry)" by simp
  have v16: "isValid (segments c ! 16)"
    by (rule w [THEN conjunct2, THEN conjunct2, THEN conjunct2, THEN conjunct2, THEN conjunct1,
          rule_format, OF conjI [OF c(1) s16]])
  have src: "\<exists>s\<in>set (segments c). isValid s \<and> toString s = Some ''99 - 9 - 9''"
    by (rule w [THEN conjunct2, THEN conjunct2, THEN conjunct2, THEN conjunct2, THEN conjunct2,
          rule_format, OF conjI [OF c(1) conjI [OF mem tm]]])
  have nc: "\<not> isComplete (Subtraction_new ?d ?d1)"
    and zero: "getValue (Subtraction_new ?d ?d1) = 0"
    by (simp_all add: digitAt_eq getValue_def)
  have "usedDigits ?d AND usedDigits ?d1 = 0" by (simp add: digitAt_eq)
  then have vs: "isValid (Subtraction_new ?d ?d1)"
    using w [THEN conjunct2, THEN conjunct1] nc by (simp only: simp_thms)
  have "usedDigits ?d AND usedDigits ?d \<noteq> 0" by (simp add: digitAt_eq)
  then have nb: "\<not> isValid ?bad"
    using invalid_segments_discarded [of ?d ?d, THEN conjunct1] by (simp only: simp_thms)
  have dropped: "addOperation c ?bad [] = (c, [])"
    by (rule w [THEN conjunct2, THEN conjunct2, THEN conjunct1, rule_format, OF nb])
  have ncomb: "\<not> isValid (Combination_new ?d ?d)"
    by (simp add: Combination_new_valid haveRepeatingDigits_iff digitAt_eq)
  from w [THEN conjunct2, THEN conjunct2, THEN conjunct2, THEN conjunct1, rule_format, OF ncomb]
  have two: "fst (addTwoDigit (segments c) ?d ?d ([], [])) = []"
    and three: "addThreeDigit ?d ?d [] = []" by simp_all
  show ?thesis
    by (intro exI conjI) (rule c(1) s16 v16 mem src nc zero vs nb dropped ncomb two three)+
qed

text \<open>
  Claim C3. On every list of four digits the constructor of the calculator returns: the
  loop of \<open>generateOperations\<close> ends, since the operations of a round use at least one
  operand of the round before, so that the operations of round \<open>k\<close> use more than \<open>k\<close> of
  the four digit positions and the fourth round accepts nothing. In every round, an
  accepted operation is not equal, in the sense of \<open>equals\<close>, to a segment of the registry
  nor to an operation accepted before it in the round.
\<close>
theorem generateOperations_terminates_on_four_digits:
  "(length digits = 4 \<longrightarrow> (\<exists>c. Calculator_new digits = Some (Inr c))) \<and>
   (j < length (snd (operationRound c0)) \<longrightarrow>
      \<not> operationExistsIn (snd (operationRound c0) ! j) (segments c0) \<and>
      \<not> operationExistsIn (snd (operationRound c0) ! j) (take j (snd (operationRound c0))))"
  using Calculator_new_returns [of digits] batchApart_operationRound [of c0]
  unfolding batchApart_def by blast

text \<open>
  The constructor returns on the digits 1, 2, 3, 4; the round over the registry of the two
  digits 1 and 2 accepts an operation, and its first operation is not equal to a segment
  of that registry.
\<close>
theorem generateOperations_terminates_on_four_digits_witness:
  "length [1, 2, 3, 4 :: int] = 4 \<and> (\<exists>c. Calculator_new [1, 2, 3, 4] = Some (Inr c)) \<and>
   0 < length (snd (operationRound \<lparr>segments = [digitAt 1 0, digitAt 2 1], solutions = []\<rparr>)) \<and>
   \<not> operationExistsIn
       (snd (operationRound \<lparr>segments = [digitAt 1 0, digitAt 2 1], solutions = []\<rparr>) ! 0)
       (segments \<lparr>segments = [digitAt 1 0, digitAt 2 1], solutions = []\<rparr>)"
proof -
  let ?c0 = "\<lparr>segments = [digitAt 1 0, digitAt 2 1], solutions = []\<rparr>"
  note w = generateOperations_terminates_on_four_digits [of "[1, 2, 3, 4]" 0 ?c0]
  have l: "length [1, 2, 3, 4 :: int] = 4" by simp
  have r: "\<exists>c. Calculator_new [1, 2, 3, 4] = Some (Inr c)"
    by (rule w [THEN conjunct1, rule_format, OF l])
  have n: "0 < length (snd (operationRound ?c0))" by code_simp
  have a: "\<not> operationExistsIn (snd (operationRound ?c0) ! 0) (segments ?c0)"
    by (rule w [THEN conjunct2, rule_format, OF n, THEN conjunct1])
  show ?thesis by (intro conjI) (rule l r n a)+
qed

text \<open>
  Claim C8. On the digits 0, 0, 0, 0 the four digit segments have the value 0, no
  concatenation of two of them is valid, and none of a rejected concatenation (whose value
  stays 0) with a third; \<open>addNumberCombinations\<close> leaves the registry of the four digit
  segments as it is. The constructor returns with an empty solutions map, and every
  addition and subtraction of two segments of the final registry has the value 0 and is
  not a solution.
\<close>
theorem all_zero_digits:
  "(case addDigits \<lparr>segments = [], solutions = []\<rparr> [0, 0, 0, 0] 0 of
      Inr c0 \<Rightarrow>
        length (segments c0) = 4 \<and>
        list_all (\<lambda>s. getValue s = 0) (segments c0) \<and>
        list_all (\<lambda>a. list_all (\<lambda>b.
             \<not> isValid (Combination_new a b) \<and> getValue (Combination_new a b) = 0 \<and>
             list_all (\<lambda>c. \<not> isValid (Combination_new (Combination_new a b) c)) (segments c0))
           (segments c0)) (segments c0) \<and>
        addNumberCombinations c0 = c0
    | Inl e \<Rightarrow> False) \<and>
   (case Calculator_new [0, 0, 0, 0] of
      Some (Inr c) \<Rightarrow>
        solutions c = [] \<and>
        list_all (\<lambda>a. list_all (\<lambda>b.
             getValue (Addition_new a b) = 0 \<and> \<not> isSolution (Addition_new a b) \<and>
             getValue (Subtraction_new a b) = 0 \<and> \<not> isSolution (Subtraction_new a b))
           (segments c)) (segments c)
    | _ \<Rightarrow> False)"
  by code_simp

end
